theory Spec2Isabelle
  imports Main "HOL-Library.Word"
begin

section \<open>Data model of csb.py\<close>

text \<open>
  A byte of a stream is an 8-bit word.  A Python \<open>str\<close> is a list of code points
  (natural numbers below \<open>0x110000\<close>); a table is \<open>list[list[str]]\<close>.
\<close>

type_synonym byte = "8 word"
type_synonym str = "nat list"
type_synonym table = "str list list"

text \<open>The enum \<open>ReadError\<close>, with the value of each member.\<close>

datatype ReadError =
    SUCCESS
  | INVALID_CSB_MAGIC
  | INVALID_BYTE_ORDER
  | INVALID_STRP_MAGIC
  | INVALID_LNP_MAGIC
  | INVALID_LNT_MAGIC
  | INCONSISTENT_TOTAL_LINES
  | INCONSISTENT_MAX_COLUMNS
  | INCONSISTENT_TOTAL_FIELDS

fun ReadError_value :: "ReadError \<Rightarrow> nat" where
  "ReadError_value SUCCESS = 0"
| "ReadError_value INVALID_CSB_MAGIC = 1"
| "ReadError_value INVALID_BYTE_ORDER = 2"
| "ReadError_value INVALID_STRP_MAGIC = 3"
| "ReadError_value INVALID_LNP_MAGIC = 4"
| "ReadError_value INVALID_LNT_MAGIC = 5"
| "ReadError_value INCONSISTENT_TOTAL_LINES = 6"
| "ReadError_value INCONSISTENT_MAX_COLUMNS = 7"
| "ReadError_value INCONSISTENT_TOTAL_FIELDS = 8"

text \<open>
  The exceptions the library calls of csb.py can raise: \<open>struct.error\<close> (a value that
  does not fit the format, a buffer of the wrong size), \<open>IndexError\<close> (\<open>byte[0]\<close> on
  the empty read at the end of the stream), \<open>KeyError\<close> (a dict lookup) and
  \<open>ValueError\<close> (a seek beyond the offset type).
\<close>

datatype exn = StructError | IndexError | KeyError | ValueError

text \<open>
  A function of the reader returns \<open>(None, err)\<close>, returns \<open>(value, SUCCESS)\<close>, or an
  exception leaves it: \<open>Inl (Tagged err)\<close>, \<open>Inr value\<close>, \<open>Inl (Raised e)\<close>.
\<close>

datatype failure = Tagged ReadError | Raised exn

definition bind :: "failure + 'a \<Rightarrow> ('a \<Rightarrow> failure + 'b) \<Rightarrow> failure + 'b" where
  "bind m k = (case m of Inl e \<Rightarrow> Inl e | Inr x \<Rightarrow> k x)"

text \<open>The byte order strings \<open>"<"\<close> and \<open>">"\<close>.\<close>

datatype byte_order = Little | Big

section \<open>struct.pack and struct.unpack\<close>

fun le_bytes :: "nat \<Rightarrow> nat \<Rightarrow> byte list" where
  "le_bytes 0 v = []"
| "le_bytes (Suc n) v = of_nat (v mod 256) # le_bytes n (v div 256)"

fun le_value :: "byte list \<Rightarrow> nat" where
  "le_value [] = 0"
| "le_value (b # bs) = unat b + 256 * le_value bs"

text \<open>The bytes of an integer in the given byte order, and back.\<close>

definition to_bytes :: "byte_order \<Rightarrow> nat \<Rightarrow> nat \<Rightarrow> byte list" where
  "to_bytes bo n v = (case bo of Little \<Rightarrow> le_bytes n v | Big \<Rightarrow> rev (le_bytes n v))"

definition from_bytes :: "byte_order \<Rightarrow> byte list \<Rightarrow> nat" where
  "from_bytes bo bs = le_value (case bo of Little \<Rightarrow> bs | Big \<Rightarrow> rev bs)"

text \<open>
  \<open>struct.pack(f"{byte_order}I", v)\<close> is \<open>pack bo 4 v\<close>, format \<open>Q\<close> is
  \<open>pack bo 8 v\<close>: it raises \<open>struct.error\<close> when the value does not fit.
\<close>

definition pack :: "byte_order \<Rightarrow> nat \<Rightarrow> nat \<Rightarrow> failure + byte list" where
  "pack bo n v = (if v < 256 ^ n then Inr (to_bytes bo n v) else Inl (Raised StructError))"

text \<open>\<open>struct.unpack(...)[0]\<close>: it raises \<open>struct.error\<close> on a short buffer.\<close>

definition unpack :: "byte_order \<Rightarrow> nat \<Rightarrow> byte list \<Rightarrow> failure + nat" where
  "unpack bo n bs =
     (if length bs = n then Inr (from_bytes bo bs) else Inl (Raised StructError))"

section \<open>The UTF-8 codec with errors="ignore"\<close>

definition is_surrogate :: "nat \<Rightarrow> bool" where
  "is_surrogate c \<longleftrightarrow> 55296 \<le> c \<and> c < 57344"

text \<open>\<open>str.encode("utf-8", errors="ignore")\<close>: a lone surrogate is dropped.\<close>

definition encode_cp :: "nat \<Rightarrow> byte list" where
  "encode_cp c =
     (if c < 128 then [of_nat c]
      else if c < 2048 then [of_nat (192 + c div 64), of_nat (128 + c mod 64)]
      else if is_surrogate c then []
      else if c < 65536 then
        [of_nat (224 + c div 4096), of_nat (128 + c div 64 mod 64), of_nat (128 + c mod 64)]
      else
        [of_nat (240 + c div 262144), of_nat (128 + c div 4096 mod 64),
         of_nat (128 + c div 64 mod 64), of_nat (128 + c mod 64)])"

definition utf8_encode :: "str \<Rightarrow> byte list" where
  "utf8_encode s = concat (map encode_cp s)"

definition is_cont :: "byte \<Rightarrow> bool" where
  "is_cont b \<longleftrightarrow> 128 \<le> unat b \<and> unat b < 192"

text \<open>
  \<open>bytes.decode("utf-8", errors="ignore")\<close>: an invalid start byte is skipped, an invalid
  continuation skips the bytes before it, a sequence cut off by the end of the data is
  dropped.
\<close>

fun utf8_decode :: "byte list \<Rightarrow> str" where
  "utf8_decode [] = []"
| "utf8_decode (b # r) =
     (let ch = unat b in
      if ch < 128 then ch # utf8_decode r
      else if ch < 194 then utf8_decode r
      else if ch < 224 then
        (case r of
           [] \<Rightarrow> []
         | b2 # r2 \<Rightarrow>
             if is_cont b2 then ((ch - 192) * 64 + (unat b2 - 128)) # utf8_decode r2
             else utf8_decode r)
      else if ch < 240 then
        (case r of
           [] \<Rightarrow> []
         | b2 # r2 \<Rightarrow>
             if \<not> is_cont b2 \<or> (ch = 224 \<and> unat b2 < 160) \<or> (ch = 237 \<and> 160 \<le> unat b2)
             then utf8_decode r
             else
               (case r2 of
                  [] \<Rightarrow> []
                | b3 # r3 \<Rightarrow>
                    if is_cont b3
                    then ((ch - 224) * 4096 + (unat b2 - 128) * 64 + (unat b3 - 128))
                           # utf8_decode r3
                    else utf8_decode r2))
      else if ch < 245 then
        (case r of
           [] \<Rightarrow> []
         | b2 # r2 \<Rightarrow>
             if \<not> is_cont b2 \<or> (ch = 240 \<and> unat b2 < 144) \<or> (ch = 244 \<and> 144 \<le> unat b2)
             then utf8_decode r
             else
               (case r2 of
                  [] \<Rightarrow> []
                | b3 # r3 \<Rightarrow>
                    if \<not> is_cont b3 then utf8_decode r2
                    else
                      (case r3 of
                         [] \<Rightarrow> []
                       | b4 # r4 \<Rightarrow>
                           if is_cont b4
                           then ((ch - 240) * 262144 + (unat b2 - 128) * 4096
                                   + (unat b3 - 128) * 64 + (unat b4 - 128))
                                  # utf8_decode r4
                           else utf8_decode r3)))
      else utf8_decode r)"

section \<open>The stream being read\<close>

text \<open>
  The reader \<open>f\<close> is the bytes \<open>d\<close> of the file, which never change, and the position
  \<open>f.tell()\<close>, which every function takes and returns.  \<open>f.read(n)\<close> returns the bytes
  that are left, at most \<open>n\<close>; \<open>f.seek(p)\<close> may go beyond the end, and raises when the
  position does not fit a signed 64-bit offset.
\<close>

definition f_read :: "byte list \<Rightarrow> nat \<Rightarrow> nat \<Rightarrow> byte list \<times> nat" where
  "f_read d p n = (let bs = take n (drop p d) in (bs, p + length bs))"

definition f_seek :: "nat \<Rightarrow> failure + nat" where
  "f_seek p = (if p < 2 ^ 63 then Inr p else Inl (Raised ValueError))"

definition read_int :: "byte list \<Rightarrow> byte_order \<Rightarrow> nat \<Rightarrow> nat \<Rightarrow> failure + (nat \<times> nat)" where
  "read_int d bo n p =
     (let (bs, p') = f_read d p n in bind (unpack bo n bs) (\<lambda>v. Inr (v, p')))"

section \<open>C strings\<close>

function read_c_string_loop ::
  "byte list \<Rightarrow> nat \<Rightarrow> byte list \<Rightarrow> failure + (byte list \<times> nat)" where
  "read_c_string_loop d p string_bytes =
     (let (byte, p') = f_read d p 1 in
      if byte = [0] then Inr (string_bytes, p')
      else (case byte of
              [] \<Rightarrow> Inl (Raised IndexError)
            | b # _ \<Rightarrow> read_c_string_loop d p' (string_bytes @ [b])))"
  by pat_completeness auto
termination
proof (relation "measure (\<lambda>(d, p, s). length d - p)")
  show "wf (measure (\<lambda>(d, p, s). length d - p))" by simp
next
  fix d :: "byte list" and p :: nat and string_bytes x byte p' b r
  assume x: "x = f_read d p 1" and bp: "(byte, p') = x" and c: "byte = b # r"
  from x bp c have "take 1 (drop p d) \<noteq> []" and p': "p' = p + length (take 1 (drop p d))"
    by (auto simp: f_read_def Let_def)
  then have "p < length d" by (cases "p < length d") auto
  with p' show "((d, p', string_bytes @ [b]), (d, p, string_bytes))
      \<in> measure (\<lambda>(d, p, s). length d - p)"
    by simp
qed

definition read_c_string :: "byte list \<Rightarrow> nat \<Rightarrow> failure + (str \<times> nat)" where
  "read_c_string d p =
     bind (read_c_string_loop d p []) (\<lambda>(string_bytes, p'). Inr (utf8_decode string_bytes, p'))"

definition write_c_string :: "byte list \<Rightarrow> str \<Rightarrow> byte list" where
  "write_c_string f string = f @ (utf8_encode string @ [0])"

section \<open>The StringPool block\<close>

definition STRP_MAGIC :: "byte list" where
  "STRP_MAGIC = [83, 84, 82, 80]"

fun read_strp_loop ::
  "byte list \<Rightarrow> nat \<Rightarrow> nat \<Rightarrow> (nat \<rightharpoonup> str) \<Rightarrow> failure + ((nat \<rightharpoonup> str) \<times> nat)" where
  "read_strp_loop d 0 pos strings = Inr (strings, pos)"
| "read_strp_loop d (Suc n) pos strings =
     bind (read_c_string d pos) (\<lambda>(string, p').
       read_strp_loop d n p' (strings(pos \<mapsto> string)))"

definition read_strp ::
  "byte list \<Rightarrow> byte_order \<Rightarrow> nat \<Rightarrow> failure + ((nat \<rightharpoonup> str) \<times> nat)" where
  "read_strp d byte_order start_pos =
     (let (magic, p1) = f_read d start_pos 4 in
      if magic \<noteq> STRP_MAGIC then Inl (Tagged INVALID_STRP_MAGIC)
      else
        bind (read_int d byte_order 4 p1) (\<lambda>(block_length, p2).
          let end_pos = start_pos + block_length in
          bind (read_int d byte_order 8 p2) (\<lambda>(str_count, p3).
            bind (read_strp_loop d str_count p3 Map.empty) (\<lambda>(strings, p4).
              bind (f_seek end_pos) (\<lambda>p5. Inr (strings, p5))))))"

text \<open>
  \<open>list(dict.fromkeys(strs))\<close>: the keys of a dict in insertion order; a key that is
  already there keeps its place.
\<close>

fun dict_fromkeys :: "'a list \<Rightarrow> 'a list \<Rightarrow> 'a list" where
  "dict_fromkeys [] keys = keys"
| "dict_fromkeys (x # xs) keys =
     dict_fromkeys xs (if x \<in> set keys then keys else keys @ [x])"

definition get_unique_strs :: "table \<Rightarrow> str list" where
  "get_unique_strs lines = dict_fromkeys (fold (\<lambda>line strs. strs @ line) lines []) []"

text \<open>
  The writer \<open>f\<close> is the list of the bytes written so far, \<open>f.tell()\<close> its length.  The
  loop of \<open>write_strp\<close> carries the buffer \<open>str_block\<close> and the dict \<open>str_map\<close>.
\<close>

fun write_strp_loop ::
  "nat \<Rightarrow> str list \<Rightarrow> byte list \<Rightarrow> (str \<rightharpoonup> nat) \<Rightarrow> byte list \<times> (str \<rightharpoonup> nat)" where
  "write_strp_loop f_tell [] str_block str_map = (str_block, str_map)"
| "write_strp_loop f_tell (string # strings) str_block str_map =
     (let pos = f_tell + length str_block + 4 in
      write_strp_loop f_tell strings (write_c_string str_block string)
        (str_map(string \<mapsto> pos)))"

definition write_strp ::
  "byte list \<Rightarrow> byte_order \<Rightarrow> table \<Rightarrow> failure + (byte list \<times> (str \<rightharpoonup> nat))" where
  "write_strp f0 byte_order lines =
     (let f = f0 @ STRP_MAGIC;
          strings = get_unique_strs lines in
      bind (pack byte_order 8 (length strings)) (\<lambda>cnt.
        let (str_block_data, str_map) = write_strp_loop (length f) strings cnt Map.empty;
            block_length = length str_block_data in
        bind (pack byte_order 4 (block_length + 8)) (\<lambda>lb.
          Inr (f @ lb @ str_block_data, str_map))))"

section \<open>The LineIndex block\<close>

definition LNP_MAGIC :: "byte list" where
  "LNP_MAGIC = [76, 78, 80, 32]"

fun read_lnp_fields ::
  "byte list \<Rightarrow> byte_order \<Rightarrow> (nat \<rightharpoonup> str) \<Rightarrow> nat \<Rightarrow> nat \<Rightarrow> str list
     \<Rightarrow> failure + (str list \<times> nat)" where
  "read_lnp_fields d byte_order str_map 0 p line = Inr (line, p)"
| "read_lnp_fields d byte_order str_map (Suc n) p line =
     bind (read_int d byte_order 8 p) (\<lambda>(str_pos, p').
       case str_map str_pos of
         None \<Rightarrow> Inl (Raised KeyError)
       | Some string \<Rightarrow> read_lnp_fields d byte_order str_map n p' (line @ [string]))"

fun read_lnp_loop ::
  "byte list \<Rightarrow> byte_order \<Rightarrow> (nat \<rightharpoonup> str) \<Rightarrow> nat \<Rightarrow> nat \<Rightarrow> (nat \<rightharpoonup> str list)
     \<Rightarrow> failure + ((nat \<rightharpoonup> str list) \<times> nat)" where
  "read_lnp_loop d byte_order str_map 0 pos lines = Inr (lines, pos)"
| "read_lnp_loop d byte_order str_map (Suc n) pos lines =
     bind (read_int d byte_order 8 pos) (\<lambda>(column_count, p1).
       bind (read_int d byte_order 8 p1) (\<lambda>(line_start_pos, p2).
         bind (f_seek line_start_pos) (\<lambda>p3.
           bind (read_lnp_fields d byte_order str_map column_count p3 []) (\<lambda>(line, p4).
             read_lnp_loop d byte_order str_map n p4 (lines(pos \<mapsto> line))))))"

definition read_lnp ::
  "byte list \<Rightarrow> byte_order \<Rightarrow> (nat \<rightharpoonup> str) \<Rightarrow> nat
     \<Rightarrow> failure + ((nat \<rightharpoonup> str list) \<times> nat)" where
  "read_lnp d byte_order str_map start_pos =
     (let (magic, p1) = f_read d start_pos 4 in
      if magic \<noteq> LNP_MAGIC then Inl (Tagged INVALID_LNP_MAGIC)
      else
        bind (read_int d byte_order 4 p1) (\<lambda>(block_length, p2).
          let end_pos = start_pos + block_length in
          bind (read_int d byte_order 8 p2) (\<lambda>(total_lines, p3).
            bind (read_lnp_loop d byte_order str_map total_lines p3 Map.empty) (\<lambda>(lines, p4).
              bind (f_seek end_pos) (\<lambda>p5. Inr (lines, p5))))))"

fun write_lnp_vals ::
  "byte_order \<Rightarrow> (str \<rightharpoonup> nat) \<Rightarrow> str list \<Rightarrow> byte list \<Rightarrow> failure + byte list" where
  "write_lnp_vals byte_order str_map [] line_block = Inr line_block"
| "write_lnp_vals byte_order str_map (val # vals) line_block =
     (case str_map val of
        None \<Rightarrow> Inl (Raised KeyError)
      | Some pos \<Rightarrow>
          bind (pack byte_order 8 pos) (\<lambda>b.
            write_lnp_vals byte_order str_map vals (line_block @ b)))"

fun write_lnp_loop ::
  "nat \<Rightarrow> byte_order \<Rightarrow> (str \<rightharpoonup> nat) \<Rightarrow> table \<Rightarrow> byte list \<Rightarrow> nat list
     \<Rightarrow> failure + (byte list \<times> nat list)" where
  "write_lnp_loop f_tell byte_order str_map [] line_block line_map = Inr (line_block, line_map)"
| "write_lnp_loop f_tell byte_order str_map (line # lines) line_block line_map =
     (let start_pos = f_tell + length line_block + 4 in
      bind (pack byte_order 8 (length line)) (\<lambda>b1.
        bind (pack byte_order 8 (start_pos + 16)) (\<lambda>b2.
          bind (write_lnp_vals byte_order str_map line (line_block @ b1 @ b2)) (\<lambda>line_block'.
            write_lnp_loop f_tell byte_order str_map lines line_block'
              (line_map @ [start_pos])))))"

definition write_lnp ::
  "byte list \<Rightarrow> byte_order \<Rightarrow> table \<Rightarrow> (str \<rightharpoonup> nat) \<Rightarrow> failure + (byte list \<times> nat list)" where
  "write_lnp f0 byte_order lines str_map =
     (let f = f0 @ LNP_MAGIC in
      bind (pack byte_order 8 (length lines)) (\<lambda>cnt.
        bind (write_lnp_loop (length f) byte_order str_map lines cnt []) (\<lambda>(line_block_data, line_map).
          bind (pack byte_order 4 (length line_block_data + 8)) (\<lambda>lb.
            Inr (f @ lb @ line_block_data, line_map)))))"

section \<open>The LineOrder block\<close>

definition LNT_MAGIC :: "byte list" where
  "LNT_MAGIC = [76, 78, 84, 32]"

fun read_lnt_loop ::
  "byte list \<Rightarrow> byte_order \<Rightarrow> (nat \<rightharpoonup> str list) \<Rightarrow> nat \<Rightarrow> nat \<Rightarrow> table
     \<Rightarrow> failure + (table \<times> nat)" where
  "read_lnt_loop d byte_order line_map 0 p lines = Inr (lines, p)"
| "read_lnt_loop d byte_order line_map (Suc n) p lines =
     bind (read_int d byte_order 8 p) (\<lambda>(line_pos, p').
       case line_map line_pos of
         None \<Rightarrow> Inl (Raised KeyError)
       | Some line \<Rightarrow> read_lnt_loop d byte_order line_map n p' (lines @ [line]))"

definition read_lnt ::
  "byte list \<Rightarrow> byte_order \<Rightarrow> (nat \<rightharpoonup> str list) \<Rightarrow> nat \<Rightarrow> failure + (table \<times> nat)" where
  "read_lnt d byte_order line_map start_pos =
     (let (magic, p1) = f_read d start_pos 4 in
      if magic \<noteq> LNT_MAGIC then Inl (Tagged INVALID_LNT_MAGIC)
      else
        bind (read_int d byte_order 4 p1) (\<lambda>(block_length, p2).
          let end_pos = start_pos + block_length in
          bind (read_int d byte_order 8 p2) (\<lambda>(total_lines, p3).
            bind (read_lnt_loop d byte_order line_map total_lines p3 []) (\<lambda>(lines, p4).
              bind (f_seek end_pos) (\<lambda>p5. Inr (lines, p5))))))"

fun write_lnt_loop :: "byte_order \<Rightarrow> nat list \<Rightarrow> byte list \<Rightarrow> failure + byte list" where
  "write_lnt_loop byte_order [] line_block = Inr line_block"
| "write_lnt_loop byte_order (pos # line_map) line_block =
     bind (pack byte_order 8 pos) (\<lambda>b. write_lnt_loop byte_order line_map (line_block @ b))"

definition write_lnt ::
  "byte list \<Rightarrow> byte_order \<Rightarrow> table \<Rightarrow> nat list \<Rightarrow> failure + byte list" where
  "write_lnt f0 byte_order lines line_map =
     (let f = f0 @ LNT_MAGIC in
      bind (pack byte_order 8 (length lines)) (\<lambda>cnt.
        bind (write_lnt_loop byte_order line_map cnt) (\<lambda>line_block_data.
          bind (pack byte_order 4 (length line_block_data + 8)) (\<lambda>lb.
            Inr (f @ lb @ line_block_data)))))"

section \<open>The container\<close>

definition CSB_MAGIC :: "byte list" where
  "CSB_MAGIC = [67, 83, 66, 32]"

text \<open>The loop of the validation: \<open>(counted_fields, counted_columns)\<close>.\<close>

fun count_lines :: "table \<Rightarrow> nat \<times> nat \<Rightarrow> nat \<times> nat" where
  "count_lines [] acc = acc"
| "count_lines (line # lines) (counted_fields, counted_columns) =
     (let line_len = length line in
      count_lines lines (counted_fields + line_len, max counted_columns line_len))"

definition read_csb_blocks ::
  "byte list \<Rightarrow> byte_order \<Rightarrow> nat \<Rightarrow> bool \<Rightarrow> failure + table" where
  "read_csb_blocks d byte_order p2 validate_result =
     (let (unused, p3) = f_read d p2 6 in
      bind (read_int d byte_order 4 p3) (\<lambda>(total_fields, p4).
        bind (read_int d byte_order 4 p4) (\<lambda>(max_columns, p5).
          bind (read_int d byte_order 4 p5) (\<lambda>(total_lines, p6).
            bind (read_strp d byte_order p6) (\<lambda>(str_map, p7).
              bind (read_lnp d byte_order str_map p7) (\<lambda>(line_map, p8).
                bind (read_lnt d byte_order line_map p8) (\<lambda>(lines, p9).
                  if validate_result then
                    if length lines \<noteq> total_lines then Inl (Tagged INCONSISTENT_TOTAL_LINES)
                    else
                      (let (counted_fields, counted_columns) = count_lines lines (0, 0) in
                       if counted_fields \<noteq> total_fields
                       then Inl (Tagged INCONSISTENT_TOTAL_FIELDS)
                       else if counted_columns \<noteq> max_columns
                       then Inl (Tagged INCONSISTENT_MAX_COLUMNS)
                       else Inr lines)
                  else Inr lines)))))))"

text \<open>\<open>read_csb\<close> on a file just opened: the position is 0.\<close>

definition read_csb :: "byte list \<Rightarrow> bool \<Rightarrow> failure + table" where
  "read_csb d validate_result =
     (let (magic, p1) = f_read d 0 4 in
      if magic \<noteq> CSB_MAGIC then Inl (Tagged INVALID_CSB_MAGIC)
      else
        (let (order_bytes, p2) = f_read d p1 2 in
         if order_bytes = [255, 254] then read_csb_blocks d Little p2 validate_result
         else if order_bytes = [254, 255] then read_csb_blocks d Big p2 validate_result
         else Inl (Tagged INVALID_BYTE_ORDER)))"

text \<open>The loop of \<open>write_csb\<close>: \<open>(total_fields, max_columns)\<close>.\<close>

fun header_counts :: "table \<Rightarrow> nat \<times> nat \<Rightarrow> nat \<times> nat" where
  "header_counts [] acc = acc"
| "header_counts (line # lines) (total_fields, max_columns) =
     (let line_len = length line in
      header_counts lines (total_fields + line_len, max line_len max_columns))"

text \<open>\<open>write_csb\<close> on a file just opened for writing: nothing is written yet.\<close>

definition write_csb :: "table \<Rightarrow> byte_order \<Rightarrow> failure + byte list" where
  "write_csb lines byte_order =
     (let f1 = CSB_MAGIC;
          order_bytes = (if byte_order = Little then [255, 254] else [254, 255]);
          f2 = f1 @ order_bytes;
          f3 = f2 @ [0, 1, 255, 255, 0, 0];
          total_lines = length lines;
          (total_fields, max_columns) = header_counts lines (0, 0) in
      bind (pack byte_order 4 total_fields) (\<lambda>b1.
        bind (pack byte_order 4 max_columns) (\<lambda>b2.
          bind (pack byte_order 4 total_lines) (\<lambda>b3.
            bind (write_strp (f3 @ b1 @ b2 @ b3) byte_order lines) (\<lambda>(f4, str_map).
              bind (write_lnp f4 byte_order lines str_map) (\<lambda>(f5, line_map).
                write_lnt f5 byte_order lines line_map))))))"

section \<open>Vocabulary of the statements\<close>

text \<open>The bytes \<open>bs\<close> lie in the stream \<open>d\<close> at offset \<open>p\<close>.\<close>

definition segment_at :: "byte list \<Rightarrow> nat \<Rightarrow> byte list \<Rightarrow> bool" where
  "segment_at d p bs \<longleftrightarrow> take (length bs) (drop p d) = bs"

text \<open>
  A Python \<open>str\<close> holds code points below \<open>0x110000\<close>.  A field is storable when
  it has no NUL character, the terminator of the pool's strings.
\<close>

definition is_str :: "str \<Rightarrow> bool" where
  "is_str s \<longleftrightarrow> list_all (\<lambda>c. c < 1114112) s"

definition storable :: "table \<Rightarrow> bool" where
  "storable lines \<longleftrightarrow> list_all (list_all (\<lambda>s. is_str s \<and> 0 \<notin> set s)) lines"

text \<open>What a field reads back as: its lone surrogates are gone.\<close>

definition readback :: "str \<Rightarrow> str" where
  "readback s = filter (\<lambda>c. \<not> is_surrogate c) s"

text \<open>The index of the first occurrence of a value in a list.\<close>

fun first_index :: "'a list \<Rightarrow> 'a \<Rightarrow> nat" where
  "first_index [] x = 0"
| "first_index (y # ys) x = (if x = y then 0 else Suc (first_index ys x))"

text \<open>
  The records that \<open>write_lnp_loop\<close> appends for a table whose first record starts at
  address \<open>a\<close>, and the addresses of these records.
\<close>

fun lnp_records :: "byte_order \<Rightarrow> (str \<rightharpoonup> nat) \<Rightarrow> nat \<Rightarrow> table \<Rightarrow> byte list" where
  "lnp_records bo str_map a [] = []"
| "lnp_records bo str_map a (line # lines) =
     to_bytes bo 8 (length line) @ to_bytes bo 8 (a + 16)
       @ concat (map (\<lambda>val. to_bytes bo 8 (the (str_map val))) line)
       @ lnp_records bo str_map (a + 16 + 8 * length line) lines"

fun lnp_starts :: "nat \<Rightarrow> table \<Rightarrow> nat list" where
  "lnp_starts a [] = []"
| "lnp_starts a (line # lines) = a # lnp_starts (a + 16 + 8 * length line) lines"

text \<open>The table of the example: \<open>[["a", "b"], ["a"]]\<close>.\<close>

definition example_table :: table where
  "example_table = [[[97], [98]], [[97]]]"

text \<open>The stream written for it in little-endian order (148 bytes).\<close>

definition example_stream :: "byte list" where
  "example_stream =
     [67, 83, 66, 32, 255, 254, 0, 1, 255, 255, 0, 0, 3, 0, 0, 0, 2, 0, 0, 0, 2, 0, 0, 0,
      83, 84, 82, 80, 20, 0, 0, 0, 2, 0, 0, 0, 0, 0, 0, 0, 97, 0, 98, 0,
      76, 78, 80, 32, 72, 0, 0, 0, 2, 0, 0, 0, 0, 0, 0, 0,
      2, 0, 0, 0, 0, 0, 0, 0, 76, 0, 0, 0, 0, 0, 0, 0,
      40, 0, 0, 0, 0, 0, 0, 0, 42, 0, 0, 0, 0, 0, 0, 0,
      1, 0, 0, 0, 0, 0, 0, 0, 108, 0, 0, 0, 0, 0, 0, 0, 40, 0, 0, 0, 0, 0, 0, 0,
      76, 78, 84, 32, 32, 0, 0, 0, 2, 0, 0, 0, 0, 0, 0, 0,
      60, 0, 0, 0, 0, 0, 0, 0, 92, 0, 0, 0, 0, 0, 0, 0]"

text \<open>
  The same stream with the header counts 9, 9, 2 instead of 3, 2, 2: the line count is
  right, the field count and the column count are wrong.
\<close>

definition tampered_stream :: "byte list" where
  "tampered_stream =
     [67, 83, 66, 32, 255, 254, 0, 1, 255, 255, 0, 0, 9, 0, 0, 0, 9, 0, 0, 0, 2, 0, 0, 0,
      83, 84, 82, 80, 20, 0, 0, 0, 2, 0, 0, 0, 0, 0, 0, 0, 97, 0, 98, 0,
      76, 78, 80, 32, 72, 0, 0, 0, 2, 0, 0, 0, 0, 0, 0, 0,
      2, 0, 0, 0, 0, 0, 0, 0, 76, 0, 0, 0, 0, 0, 0, 0,
      40, 0, 0, 0, 0, 0, 0, 0, 42, 0, 0, 0, 0, 0, 0, 0,
      1, 0, 0, 0, 0, 0, 0, 0, 108, 0, 0, 0, 0, 0, 0, 0, 40, 0, 0, 0, 0, 0, 0, 0,
      76, 78, 84, 32, 32, 0, 0, 0, 2, 0, 0, 0, 0, 0, 0, 0,
      60, 0, 0, 0, 0, 0, 0, 0, 92, 0, 0, 0, 0, 0, 0, 0]"

text \<open>
  The limits of the format.  The pool strings of a table take \<open>pool_size\<close> bytes and
  its line records \<open>records_size\<close> bytes (a count, an address and one address for each
  field, 8 bytes each); a block's length field has 4 bytes and counts 16 bytes more than
  these.  A table fits the format when both lengths can be packed.
\<close>

definition pool_size :: "table \<Rightarrow> nat" where
  "pool_size lines = length (concat (map (write_c_string []) (get_unique_strs lines)))"

definition records_size :: "table \<Rightarrow> nat" where
  "records_size lines = sum_list (map (\<lambda>line. 16 + 8 * length line) lines)"

definition fits_format :: "table \<Rightarrow> bool" where
  "fits_format lines \<longleftrightarrow> pool_size lines + 16 < 256 ^ 4 \<and> records_size lines + 16 < 256 ^ 4"

text \<open>
  The table \<open>[["a", "\<acute>e"], [], ["a"]]\<close> with an empty row and a two-byte character, and the
  stream written for it in big-endian order (157 bytes).
\<close>

definition ragged_table :: table where
  "ragged_table = [[[97], [233]], [], [[97]]]"

definition ragged_stream :: "byte list" where
  "ragged_stream =
     [67, 83, 66, 32, 254, 255, 0, 1, 255, 255, 0, 0, 0, 0, 0, 3, 0, 0, 0, 2, 0, 0, 0, 3,
      83, 84, 82, 80, 0, 0, 0, 21, 0, 0, 0, 0, 0, 0, 0, 2, 97, 0, 195, 169, 0,
      76, 78, 80, 32, 0, 0, 0, 88, 0, 0, 0, 0, 0, 0, 0, 3,
      0, 0, 0, 0, 0, 0, 0, 2, 0, 0, 0, 0, 0, 0, 0, 77,
      0, 0, 0, 0, 0, 0, 0, 40, 0, 0, 0, 0, 0, 0, 0, 42,
      0, 0, 0, 0, 0, 0, 0, 0, 0, 0, 0, 0, 0, 0, 0, 109,
      0, 0, 0, 0, 0, 0, 0, 1, 0, 0, 0, 0, 0, 0, 0, 125, 0, 0, 0, 0, 0, 0, 0, 40,
      76, 78, 84, 32, 0, 0, 0, 40, 0, 0, 0, 0, 0, 0, 0, 3,
      0, 0, 0, 0, 0, 0, 0, 61, 0, 0, 0, 0, 0, 0, 0, 93, 0, 0, 0, 0, 0, 0, 0, 109]"


section \<open>The monad, pack and unpack\<close>

lemma bind_Inr [simp]: "bind (Inr x) k = k x"
  by (simp add: bind_def)

lemma bind_Inl [simp]: "bind (Inl e) k = Inl e"
  by (simp add: bind_def)

lemma bind_eq_Inr: "bind m k = Inr y \<longleftrightarrow> (\<exists>x. m = Inr x \<and> k x = Inr y)"
  by (cases m) simp_all

lemma length_le_bytes [simp]: "length (le_bytes n v) = n"
  by (induction n arbitrary: v) simp_all

lemma unat_byte: "n < 256 \<Longrightarrow> unat (of_nat n :: byte) = n"
  by (simp add: unat_of_nat)

lemma unat_byte_mod: "unat (of_nat (v mod 256) :: byte) = v mod 256"
  by (rule unat_byte) simp

lemma le_value_le_bytes: "v < 256 ^ n \<Longrightarrow> le_value (le_bytes n v) = v"
proof (induction n arbitrary: v)
  case 0
  then show ?case by simp
next
  case (Suc n)
  from Suc.prems have "v < 256 ^ n * 256" by (simp add: mult.commute)
  then have "v div 256 < 256 ^ n"
    by (rule less_mult_imp_div_less)
  then have "le_value (le_bytes n (v div 256)) = v div 256"
    by (rule Suc.IH)
  then show ?case by (simp add: unat_byte_mod del: of_nat_mod)
qed

lemma length_to_bytes [simp]: "length (to_bytes bo n v) = n"
  by (cases bo) (simp_all add: to_bytes_def)

lemma from_to_bytes: "v < 256 ^ n \<Longrightarrow> from_bytes bo (to_bytes bo n v) = v"
  by (cases bo) (simp_all add: to_bytes_def from_bytes_def le_value_le_bytes)

lemma pack_eq_Inr: "pack bo n v = Inr b \<longleftrightarrow> v < 256 ^ n \<and> b = to_bytes bo n v"
  by (auto simp: pack_def)

lemma pack_length: "pack bo n v = Inr b \<Longrightarrow> length b = n"
  by (simp add: pack_eq_Inr)

lemma unpack_pack: "pack bo n v = Inr b \<Longrightarrow> unpack bo n b = Inr v"
  by (simp add: pack_eq_Inr unpack_def from_to_bytes)

lemma Max_insert_max:
  assumes "finite S"
  shows "Max (insert (max x m) S) = Max (insert m (insert x S))"
proof (cases "S = {}")
  case True
  then show ?thesis by (simp add: max.commute)
next
  case False
  with assms show ?thesis by (simp add: max.assoc max.commute max.left_commute)
qed

lemma header_counts_eq:
  "header_counts lines (a, m) =
     (a + sum_list (map length lines), Max (insert m (length ` set lines)))"
proof (induction lines arbitrary: a m)
  case Nil
  then show ?case by simp
next
  case (Cons line lines)
  have "Max (insert (max (length line) m) (length ` set lines))
      = Max (insert m (insert (length line) (length ` set lines)))"
    by (rule Max_insert_max) simp
  with Cons show ?case by (simp add: Let_def)
qed

section \<open>UTF-8: decoding what was encoded\<close>

lemma div_mod_three: "(c::nat) div 4096 * 4096 + c div 64 mod 64 * 64 + c mod 64 = c"
proof -
  have a: "c div 64 div 64 = c div 4096" by (simp add: div_mult2_eq)
  have "c div 64 = c div 64 div 64 * 64 + c div 64 mod 64" by simp
  then have b: "c div 64 = c div 4096 * 64 + c div 64 mod 64" by (simp only: a)
  have "c = c div 64 * 64 + c mod 64" by simp
  then have "c = (c div 4096 * 64 + c div 64 mod 64) * 64 + c mod 64" using b by simp
  then show ?thesis by (simp add: algebra_simps)
qed

lemma div_mod_four:
  "(c::nat) div 262144 * 262144 + c div 4096 mod 64 * 4096 + c div 64 mod 64 * 64 + c mod 64 = c"
proof -
  have a: "c div 4096 div 64 = c div 262144" by (simp add: div_mult2_eq)
  have "c div 4096 = c div 4096 div 64 * 64 + c div 4096 mod 64" by simp
  then have b: "c div 4096 = c div 262144 * 64 + c div 4096 mod 64" by (simp only: a)
  have "c = c div 4096 * 4096 + c div 64 mod 64 * 64 + c mod 64" by (simp only: div_mod_three)
  then have "c = (c div 262144 * 64 + c div 4096 mod 64) * 4096 + c div 64 mod 64 * 64 + c mod 64"
    using b by simp
  then show ?thesis by (simp add: algebra_simps)
qed

lemma range_two: "128 \<le> (c::nat) \<Longrightarrow> c < 2048 \<Longrightarrow> 2 \<le> c div 64 \<and> c div 64 < 32"
  by (simp add: less_mult_imp_div_less div_le_mono[of 128 c 64, simplified])

lemma range_three: "(c::nat) < 65536 \<Longrightarrow> c div 4096 < 16"
  by (simp add: less_mult_imp_div_less)

lemma range_three_low: "2048 \<le> (c::nat) \<Longrightarrow> c div 4096 = 0 \<Longrightarrow> 32 \<le> c div 64 mod 64"
proof -
  assume a: "2048 \<le> c" and b: "c div 4096 = 0"
  from b have "c < 4096" by (simp add: div_eq_0_iff)
  then have "c div 64 < 64" by (simp add: less_mult_imp_div_less)
  moreover from a have "32 \<le> c div 64" using div_le_mono[of 2048 c 64] by simp
  ultimately show ?thesis by simp
qed

lemma range_three_sur: "(c::nat) < 55296 \<Longrightarrow> c div 4096 = 13 \<Longrightarrow> c div 64 mod 64 < 32"
proof -
  assume a: "c < 55296" and b: "c div 4096 = 13"
  have "c div 64 div 64 = c div 4096" by (simp add: div_mult2_eq)
  with b have "c div 64 div 64 = 13" by simp
  moreover have "c div 64 = c div 64 div 64 * 64 + c div 64 mod 64" by simp
  ultimately have e: "c div 64 = 832 + c div 64 mod 64" by simp
  from a have "c div 64 < 864" by (simp add: less_mult_imp_div_less)
  with e show ?thesis by linarith
qed

lemma range_three_top: "(c::nat) div 4096 = 13 \<Longrightarrow> c < 57344"
proof -
  assume b: "c div 4096 = 13"
  have "c < (c div 4096 + 1) * 4096" using dividend_less_div_times[of 4096 c] by simp
  with b show ?thesis by simp
qed

lemma range_four: "(c::nat) < 1114112 \<Longrightarrow> c div 262144 < 5"
  by (simp add: less_mult_imp_div_less)

lemma range_four_low: "65536 \<le> (c::nat) \<Longrightarrow> c div 262144 = 0 \<Longrightarrow> 16 \<le> c div 4096 mod 64"
proof -
  assume a: "65536 \<le> c" and b: "c div 262144 = 0"
  from b have "c < 262144" by (simp add: div_eq_0_iff)
  then have "c div 4096 < 64" by (simp add: less_mult_imp_div_less)
  moreover from a have "16 \<le> c div 4096" using div_le_mono[of 65536 c 4096] by simp
  ultimately show ?thesis by simp
qed

lemma range_four_top: "(c::nat) < 1114112 \<Longrightarrow> c div 262144 = 4 \<Longrightarrow> c div 4096 mod 64 < 16"
proof -
  assume a: "c < 1114112" and b: "c div 262144 = 4"
  have "c div 4096 div 64 = c div 262144" by (simp add: div_mult2_eq)
  with b have "c div 4096 div 64 = 4" by simp
  moreover have "c div 4096 = c div 4096 div 64 * 64 + c div 4096 mod 64" by simp
  ultimately have e: "c div 4096 = 256 + c div 4096 mod 64" by simp
  from a have "c div 4096 < 272" by (simp add: less_mult_imp_div_less)
  with e show ?thesis by linarith
qed

declare utf8_decode.simps(2) [simp del]

lemma decode1: "unat b < 128 \<Longrightarrow> utf8_decode (b # r) = unat b # utf8_decode r"
  by (subst utf8_decode.simps(2)) (simp add: Let_def)

lemma decode2:
  "194 \<le> unat b \<Longrightarrow> unat b < 224 \<Longrightarrow> is_cont b2 \<Longrightarrow>
   utf8_decode (b # b2 # r) = ((unat b - 192) * 64 + (unat b2 - 128)) # utf8_decode r"
  by (subst utf8_decode.simps(2)) (simp add: Let_def)

lemma decode3:
  "224 \<le> unat b \<Longrightarrow> unat b < 240 \<Longrightarrow> is_cont b2 \<Longrightarrow> is_cont b3 \<Longrightarrow>
   (unat b = 224 \<longrightarrow> 160 \<le> unat b2) \<Longrightarrow> (unat b = 237 \<longrightarrow> unat b2 < 160) \<Longrightarrow>
   utf8_decode (b # b2 # b3 # r) =
     ((unat b - 224) * 4096 + (unat b2 - 128) * 64 + (unat b3 - 128)) # utf8_decode r"
  by (subst utf8_decode.simps(2)) (auto simp: Let_def)

lemma decode4:
  "240 \<le> unat b \<Longrightarrow> unat b < 245 \<Longrightarrow> is_cont b2 \<Longrightarrow> is_cont b3 \<Longrightarrow> is_cont b4 \<Longrightarrow>
   (unat b = 240 \<longrightarrow> 144 \<le> unat b2) \<Longrightarrow> (unat b = 244 \<longrightarrow> unat b2 < 144) \<Longrightarrow>
   utf8_decode (b # b2 # b3 # b4 # r) =
     ((unat b - 240) * 262144 + (unat b2 - 128) * 4096 + (unat b3 - 128) * 64 + (unat b4 - 128))
       # utf8_decode r"
  by (subst utf8_decode.simps(2)) (auto simp: Let_def)

lemma decode_encode_cp:
  assumes "c < 1114112" and "\<not> is_surrogate c"
  shows "utf8_decode (encode_cp c @ r) = c # utf8_decode r"
proof -
  consider (a) "c < 128" | (b) "128 \<le> c" "c < 2048" | (c) "2048 \<le> c" "c < 65536"
    | (d) "65536 \<le> c"
    by linarith
  then show ?thesis
  proof cases
    case a
    then have "unat (of_nat c :: byte) = c" by (simp add: unat_byte)
    with a show ?thesis by (simp add: encode_cp_def decode1)
  next
    case b
    define h where "h = 192 + c div 64"
    define l where "l = 128 + c mod 64"
    from b have hb: "194 \<le> h" "h < 224" unfolding h_def using range_two[of c] by simp_all
    have lb: "128 \<le> l" "l < 192" unfolding l_def by simp_all
    have uh: "unat (of_nat h :: byte) = h" using hb by (simp add: unat_byte)
    have ul: "unat (of_nat l :: byte) = l" using lb by (simp add: unat_byte)
    have val: "(h - 192) * 64 + (l - 128) = c" unfolding h_def l_def by simp
    have enc: "encode_cp c = [of_nat h, of_nat l]"
      using b unfolding encode_cp_def h_def l_def by simp
    have "utf8_decode (of_nat h # of_nat l # r) = ((h - 192) * 64 + (l - 128)) # utf8_decode r"
      using decode2[of "of_nat h" "of_nat l" r] hb lb by (simp add: uh ul is_cont_def)
    then show ?thesis by (simp add: enc val)
  next
    case c
    define h where "h = 224 + c div 4096"
    define m where "m = 128 + c div 64 mod 64"
    define l where "l = 128 + c mod 64"
    from c have hb: "224 \<le> h" "h < 240" unfolding h_def using range_three[of c] by simp_all
    have mb: "128 \<le> m" "m < 192" unfolding m_def by simp_all
    have lb: "128 \<le> l" "l < 192" unfolding l_def by simp_all
    from c have h224: "h = 224 \<longrightarrow> 160 \<le> m"
      unfolding h_def m_def using range_three_low[of c] by simp
    have h237: "h = 237 \<longrightarrow> m < 160"
    proof
      assume "h = 237"
      then have e: "c div 4096 = 13" by (simp add: h_def)
      then have "c < 57344" by (rule range_three_top)
      with assms(2) have "c < 55296" by (simp add: is_surrogate_def)
      then have "c div 64 mod 64 < 32" using e by (rule range_three_sur)
      then show "m < 160" by (simp add: m_def)
    qed
    have uh: "unat (of_nat h :: byte) = h" using hb by (simp add: unat_byte)
    have um: "unat (of_nat m :: byte) = m" using mb by (simp add: unat_byte)
    have ul: "unat (of_nat l :: byte) = l" using lb by (simp add: unat_byte)
    have val: "(h - 224) * 4096 + (m - 128) * 64 + (l - 128) = c"
      unfolding h_def m_def l_def using div_mod_three[of c] by simp
    have enc: "encode_cp c = [of_nat h, of_nat m, of_nat l]"
      using c assms(2) unfolding encode_cp_def h_def m_def l_def by simp
    have "utf8_decode (of_nat h # of_nat m # of_nat l # r)
        = ((h - 224) * 4096 + (m - 128) * 64 + (l - 128)) # utf8_decode r"
      using decode3[of "of_nat h" "of_nat m" "of_nat l" r] hb mb lb h224 h237
      by (simp add: uh um ul is_cont_def)
    then show ?thesis by (simp add: enc val)
  next
    case d
    define h where "h = 240 + c div 262144"
    define m where "m = 128 + c div 4096 mod 64"
    define k where "k = 128 + c div 64 mod 64"
    define l where "l = 128 + c mod 64"
    from assms(1) have hb: "240 \<le> h" "h < 245" unfolding h_def using range_four[of c] by simp_all
    have mb: "128 \<le> m" "m < 192" unfolding m_def by simp_all
    have kb: "128 \<le> k" "k < 192" unfolding k_def by simp_all
    have lb: "128 \<le> l" "l < 192" unfolding l_def by simp_all
    from d have h240: "h = 240 \<longrightarrow> 144 \<le> m"
      unfolding h_def m_def using range_four_low[of c] by simp
    from assms(1) have h244: "h = 244 \<longrightarrow> m < 144"
      unfolding h_def m_def using range_four_top[of c] by simp
    have uh: "unat (of_nat h :: byte) = h" using hb by (simp add: unat_byte)
    have um: "unat (of_nat m :: byte) = m" using mb by (simp add: unat_byte)
    have uk: "unat (of_nat k :: byte) = k" using kb by (simp add: unat_byte)
    have ul: "unat (of_nat l :: byte) = l" using lb by (simp add: unat_byte)
    have val: "(h - 240) * 262144 + (m - 128) * 4096 + (k - 128) * 64 + (l - 128) = c"
      unfolding h_def m_def k_def l_def using div_mod_four[of c] by simp
    from d have ns: "\<not> c < 128" "\<not> c < 2048" "\<not> c < 65536" by simp_all
    have enc: "encode_cp c = [of_nat h, of_nat m, of_nat k, of_nat l]"
      using ns assms(2) unfolding encode_cp_def h_def m_def k_def l_def by simp
    have "utf8_decode (of_nat h # of_nat m # of_nat k # of_nat l # r)
        = ((h - 240) * 262144 + (m - 128) * 4096 + (k - 128) * 64 + (l - 128)) # utf8_decode r"
      using decode4[of "of_nat h" "of_nat m" "of_nat k" "of_nat l" r] hb mb kb lb h240 h244
      by (simp add: uh um uk ul is_cont_def)
    then show ?thesis by (simp add: enc val)
  qed
qed

lemma utf8_encode_Nil [simp]: "utf8_encode [] = []"
  by (simp add: utf8_encode_def)

lemma utf8_encode_Cons: "utf8_encode (c # s) = encode_cp c @ utf8_encode s"
  by (simp add: utf8_encode_def)

lemma encode_cp_surrogate: "is_surrogate c \<Longrightarrow> encode_cp c = []"
  by (simp add: encode_cp_def is_surrogate_def)

lemma utf8_decode_encode: "is_str s \<Longrightarrow> utf8_decode (utf8_encode s) = readback s"
proof (induction s)
  case Nil
  then show ?case by (simp add: readback_def)
next
  case (Cons c s)
  then have c: "c < 1114112" and s: "is_str s" by (simp_all add: is_str_def)
  from Cons.IH s have ih: "utf8_decode (utf8_encode s) = readback s" .
  show ?case
  proof (cases "is_surrogate c")
    case True
    with ih show ?thesis by (simp add: utf8_encode_Cons encode_cp_surrogate readback_def)
  next
    case False
    with c ih show ?thesis by (simp add: utf8_encode_Cons decode_encode_cp readback_def)
  qed
qed

lemma byte_nonzero: "0 < n \<Longrightarrow> n < 256 \<Longrightarrow> (of_nat n :: byte) \<noteq> 0"
proof
  assume a: "0 < n" "n < 256" and z: "(of_nat n :: byte) = 0"
  from a(2) have "unat (of_nat n :: byte) = n" by (rule unat_byte)
  with z a(1) show False by simp
qed

lemma encode_cp_nonzero:
  assumes "c \<noteq> 0" and "c < 1114112"
  shows "0 \<notin> set (encode_cp c)"
proof -
  have m: "\<And>x. (of_nat (128 + x mod 64) :: byte) \<noteq> 0"
    by (rule byte_nonzero) simp_all
  have a: "c < 128 \<Longrightarrow> (of_nat c :: byte) \<noteq> 0"
    using assms(1) by (intro byte_nonzero) simp_all
  have b: "c < 2048 \<Longrightarrow> (of_nat (192 + c div 64) :: byte) \<noteq> 0"
  proof -
    assume "c < 2048"
    then have "c div 64 < 32" by (simp add: less_mult_imp_div_less)
    then show ?thesis by (intro byte_nonzero) simp_all
  qed
  have c3: "c < 65536 \<Longrightarrow> (of_nat (224 + c div 4096) :: byte) \<noteq> 0"
  proof -
    assume "c < 65536"
    then have "c div 4096 < 16" by (rule range_three)
    then show ?thesis by (intro byte_nonzero) simp_all
  qed
  have d: "(of_nat (240 + c div 262144) :: byte) \<noteq> 0"
  proof -
    from assms(2) have "c div 262144 < 5" by (rule range_four)
    then show ?thesis by (intro byte_nonzero) simp_all
  qed
  show ?thesis
    unfolding encode_cp_def using a b c3 d m
    by (simp del: of_nat_add of_nat_numeral of_nat_mod of_nat_div)
qed

lemma utf8_encode_nonzero: "is_str s \<Longrightarrow> 0 \<notin> set s \<Longrightarrow> 0 \<notin> set (utf8_encode s)"
proof (induction s)
  case Nil
  then show ?case by simp
next
  case (Cons c s)
  then have "c \<noteq> 0" "c < 1114112" "is_str s" "0 \<notin> set s" by (auto simp: is_str_def)
  with Cons.IH show ?case by (simp add: utf8_encode_Cons encode_cp_nonzero)
qed

section \<open>Reading a segment of the stream\<close>

lemma segment_at_Nil [simp]: "segment_at d p []"
  by (simp add: segment_at_def)

lemma segment_at_length: "segment_at d p bs \<Longrightarrow> length bs \<le> length d - p"
proof -
  assume "segment_at d p bs"
  then have "length (take (length bs) (drop p d)) = length bs"
    by (simp add: segment_at_def)
  then show ?thesis by simp
qed

lemma segment_at_append:
  "segment_at d p (xs @ ys) \<longleftrightarrow> segment_at d p xs \<and> segment_at d (p + length xs) ys"
proof
  assume a: "segment_at d p (xs @ ys)"
  then have e: "take (length xs + length ys) (drop p d) = xs @ ys"
    by (simp add: segment_at_def)
  from a have l: "length xs + length ys \<le> length d - p"
    using segment_at_length[of d p "xs @ ys"] by simp
  from e have "take (length xs) (drop p d) @ take (length ys) (drop (length xs) (drop p d)) = xs @ ys"
    by (simp add: take_add)
  moreover from l have "length (take (length xs) (drop p d)) = length xs" by simp
  ultimately have "take (length xs) (drop p d) = xs \<and> take (length ys) (drop (length xs) (drop p d)) = ys"
    by (simp add: append_eq_append_conv)
  then show "segment_at d p xs \<and> segment_at d (p + length xs) ys"
    by (simp add: segment_at_def add.commute)
next
  assume "segment_at d p xs \<and> segment_at d (p + length xs) ys"
  then have "take (length xs) (drop p d) = xs" "take (length ys) (drop (length xs) (drop p d)) = ys"
    by (simp_all add: segment_at_def add.commute)
  then show "segment_at d p (xs @ ys)"
    by (simp add: segment_at_def take_add)
qed

lemma segment_at_Cons:
  "segment_at d p (x # xs) \<longleftrightarrow> segment_at d p [x] \<and> segment_at d (Suc p) xs"
  using segment_at_append[of d p "[x]" xs] by simp

lemma segment_at_middle: "segment_at (pre @ bs @ post) (length pre) bs"
  by (simp add: segment_at_def)

lemma segment_at_whole: "segment_at (pre @ bs) (length pre) bs"
  by (simp add: segment_at_def)

lemma f_read_segment: "segment_at d p bs \<Longrightarrow> f_read d p (length bs) = (bs, p + length bs)"
  by (simp add: f_read_def segment_at_def Let_def)

lemma read_int_segment:
  assumes "segment_at d p (to_bytes bo n v)" and "v < 256 ^ n"
  shows "read_int d bo n p = Inr (v, p + n)"
proof -
  have "f_read d p n = (to_bytes bo n v, p + n)"
    using f_read_segment[OF assms(1)] by simp
  then show ?thesis
    using assms(2) by (simp add: read_int_def unpack_def from_to_bytes)
qed

declare read_c_string_loop.simps [simp del]

lemma read_c_string_loop_segment:
  "segment_at d p (bs @ [0]) \<Longrightarrow> 0 \<notin> set bs \<Longrightarrow>
   read_c_string_loop d p acc = Inr (acc @ bs, p + length bs + 1)"
proof (induction bs arbitrary: p acc)
  case Nil
  then have "f_read d p 1 = ([0], p + 1)"
    using f_read_segment[of d p "[0]"] by simp
  then show ?case by (subst read_c_string_loop.simps) simp
next
  case (Cons b bs)
  from Cons.prems(1) have s1: "segment_at d p [b]" and s2: "segment_at d (Suc p) (bs @ [0])"
    using segment_at_Cons[of d p b "bs @ [0]"] by simp_all
  from s1 have r: "f_read d p 1 = ([b], p + 1)"
    using f_read_segment[of d p "[b]"] by simp
  from Cons.prems(2) have nz: "b \<noteq> 0" "0 \<notin> set bs" by auto
  have "read_c_string_loop d (Suc p) (acc @ [b]) = Inr ((acc @ [b]) @ bs, Suc p + length bs + 1)"
    using s2 nz(2) by (rule Cons.IH)
  then show ?case
    using r nz(1) by (subst read_c_string_loop.simps) simp
qed

lemma write_c_string_Nil: "write_c_string [] s = utf8_encode s @ [0]"
  by (simp add: write_c_string_def)

lemma read_c_string_segment:
  assumes "segment_at d p (write_c_string [] s)" and "is_str s" and "0 \<notin> set s"
  shows "read_c_string d p = Inr (readback s, p + length (write_c_string [] s))"
proof -
  from assms(2,3) have "0 \<notin> set (utf8_encode s)" by (rule utf8_encode_nonzero)
  with assms(1) have "read_c_string_loop d p [] = Inr ([] @ utf8_encode s, p + length (utf8_encode s) + 1)"
    unfolding write_c_string_Nil by (rule read_c_string_loop_segment)
  then show ?thesis
    using assms(2) by (simp add: read_c_string_def utf8_decode_encode write_c_string_Nil)
qed

section \<open>The distinct strings\<close>

lemma first_index_append_in:
  "x \<in> set pre \<Longrightarrow> first_index (pre @ ys) x = first_index pre x"
  by (induction pre) auto

lemma first_index_less: "x \<in> set pre \<Longrightarrow> first_index pre x < length pre"
  by (induction pre) auto

lemma first_index_append_notin:
  "x \<notin> set pre \<Longrightarrow> first_index (pre @ ys) x = length pre + first_index ys x"
  by (induction pre) auto

lemma dict_fromkeys_invariant:
  assumes "distinct keys" and "set keys = set pre"
    and "sorted_wrt (<) (map (first_index pre) keys)"
  shows "distinct (dict_fromkeys xs keys) \<and> set (dict_fromkeys xs keys) = set (pre @ xs)
    \<and> sorted_wrt (<) (map (first_index (pre @ xs)) (dict_fromkeys xs keys))"
  using assms
proof (induction xs arbitrary: keys pre)
  case Nil
  then show ?case by simp
next
  case (Cons x xs)
  let ?keys = "if x \<in> set keys then keys else keys @ [x]"
  have d: "distinct ?keys" using Cons.prems(1) by simp
  have s: "set ?keys = set (pre @ [x])" using Cons.prems(2) by auto
  have same: "map (first_index (pre @ [x])) keys = map (first_index pre) keys"
    using Cons.prems(2) by (simp add: first_index_append_in)
  have o: "sorted_wrt (<) (map (first_index (pre @ [x])) ?keys)"
  proof (cases "x \<in> set keys")
    case True
    then have "?keys = keys" by simp
    then show ?thesis using Cons.prems(3) by (simp only: same)
  next
    case False
    then have "x \<notin> set pre" using Cons.prems(2) by simp
    then have "first_index (pre @ [x]) x = length pre"
      by (simp add: first_index_append_notin)
    moreover have "\<forall>k\<in>set keys. first_index (pre @ [x]) k < length pre"
      using Cons.prems(2) by (simp add: first_index_append_in first_index_less)
    moreover have "sorted_wrt (<) (map (first_index (pre @ [x])) keys)"
      using Cons.prems(3) by (simp only: same)
    ultimately show ?thesis
      using False by (simp add: sorted_wrt_append)
  qed
  from Cons.IH[OF d s o] show ?case by simp
qed

lemma fold_extend: "fold (\<lambda>line strs. strs @ line) lines acc = acc @ concat lines"
  by (induction lines arbitrary: acc) simp_all

lemma get_unique_strs_first_occurrence:
  "distinct (get_unique_strs lines) \<and> set (get_unique_strs lines) = set (concat lines)
   \<and> sorted_wrt (<) (map (first_index (concat lines)) (get_unique_strs lines))"
  using dict_fromkeys_invariant[of "[]" "[]" "concat lines"]
  by (simp add: get_unique_strs_def fold_extend)

section \<open>What the writer writes\<close>

lemma write_strp_loop_block:
  "fst (write_strp_loop ft strs blk sm) = blk @ concat (map (write_c_string []) strs)"
  by (induction strs arbitrary: blk sm) (simp_all add: Let_def write_c_string_def)

lemma write_strp_loop_other:
  "s \<notin> set strs \<Longrightarrow> snd (write_strp_loop ft strs blk sm) s = sm s"
  by (induction strs arbitrary: blk sm) (auto simp: Let_def)

lemma write_strp_loop_map:
  "distinct strs \<Longrightarrow> i < length strs \<Longrightarrow>
   snd (write_strp_loop ft strs blk sm) (strs ! i) =
     Some (ft + length blk + 4 + length (concat (map (write_c_string []) (take i strs))))"
proof (induction strs arbitrary: blk sm i)
  case Nil
  then show ?case by simp
next
  case (Cons s strs)
  show ?case
  proof (cases i)
    case 0
    with Cons.prems show ?thesis by (simp add: Let_def write_strp_loop_other)
  next
    case (Suc j)
    with Cons.prems have "distinct strs" "j < length strs" by simp_all
    then have "snd (write_strp_loop ft strs (write_c_string blk s) (sm(s \<mapsto> ft + length blk + 4)))
        (strs ! j) =
      Some (ft + length (write_c_string blk s) + 4
              + length (concat (map (write_c_string []) (take j strs))))"
      by (rule Cons.IH)
    moreover have "write_c_string blk s = blk @ write_c_string [] s"
      by (simp add: write_c_string_def)
    ultimately show ?thesis using Suc by (simp add: Let_def)
  qed
qed

lemma write_strp_eq:
  assumes "write_strp f0 bo lines = Inr (f, sm)"
  defines "u \<equiv> get_unique_strs lines"
  defines "pool \<equiv> concat (map (write_c_string []) u)"
  shows "f = f0 @ STRP_MAGIC @ to_bytes bo 4 (length pool + 16) @ to_bytes bo 8 (length u) @ pool"
    and "length pool + 16 < 256 ^ 4"
    and "length u < 256 ^ 8"
    and "\<forall>i<length u. sm (u ! i) =
           Some (length f0 + 16 + length (concat (map (write_c_string []) (take i u))))"
proof -
  obtain blk m where l: "write_strp_loop (length (f0 @ STRP_MAGIC)) u (to_bytes bo 8 (length u)) Map.empty = (blk, m)"
    by (cases "write_strp_loop (length (f0 @ STRP_MAGIC)) u (to_bytes bo 8 (length u)) Map.empty")
  from assms(1) have c: "length u < 256 ^ 8"
    and b: "length blk + 8 < 256 ^ 4"
    and f: "f = (f0 @ STRP_MAGIC) @ to_bytes bo 4 (length blk + 8) @ blk"
    and m: "sm = m"
    using l by (auto simp: write_strp_def Let_def bind_eq_Inr pack_eq_Inr u_def)
  have blk: "blk = to_bytes bo 8 (length u) @ pool"
    using write_strp_loop_block[of "length (f0 @ STRP_MAGIC)" u "to_bytes bo 8 (length u)" Map.empty] l
    by (simp add: pool_def)
  show "f = f0 @ STRP_MAGIC @ to_bytes bo 4 (length pool + 16) @ to_bytes bo 8 (length u) @ pool"
    using f blk by (simp add: add.commute)
  show "length pool + 16 < 256 ^ 4" using b blk by simp
  show "length u < 256 ^ 8" by (rule c)
  have d: "distinct u" unfolding u_def using get_unique_strs_first_occurrence by blast
  show "\<forall>i<length u. sm (u ! i) =
           Some (length f0 + 16 + length (concat (map (write_c_string []) (take i u))))"
  proof (intro allI impI)
    fix i assume "i < length u"
    from write_strp_loop_map[OF d this, of "length (f0 @ STRP_MAGIC)" "to_bytes bo 8 (length u)" Map.empty]
    show "sm (u ! i) = Some (length f0 + 16 + length (concat (map (write_c_string []) (take i u))))"
      using l m by (simp add: STRP_MAGIC_def)
  qed
qed

lemma write_lnp_prefix: "write_lnp f0 bo lines sm = Inr (f, lm) \<Longrightarrow> \<exists>r. f = f0 @ r"
  by (auto simp: write_lnp_def Let_def bind_eq_Inr)

lemma write_lnt_prefix: "write_lnt f0 bo lines lm = Inr f \<Longrightarrow> \<exists>r. f = f0 @ r"
  by (auto simp: write_lnt_def Let_def bind_eq_Inr)

lemma write_csb_header:
  assumes "write_csb lines bo = Inr bs"
  defines "tf \<equiv> sum_list (map length lines)"
  defines "mc \<equiv> Max (insert 0 (length ` set lines))"
  shows "\<exists>rest. bs = CSB_MAGIC @ (if bo = Little then [255, 254] else [254, 255])
            @ [0, 1, 255, 255, 0, 0]
            @ to_bytes bo 4 tf @ to_bytes bo 4 mc @ to_bytes bo 4 (length lines) @ rest"
    and "tf < 256 ^ 4" and "mc < 256 ^ 4" and "length lines < 256 ^ 4"
proof -
  have hc: "header_counts lines (0, 0) = (tf, mc)"
    by (simp add: header_counts_eq tf_def mc_def)
  let ?h = "(CSB_MAGIC @ (if bo = Little then [255, 254] else [254, 255])) @ [0, 1, 255, 255, 0, 0]"
  from assms(1) hc obtain f4 sm f5 lm where
    b: "tf < 256 ^ 4" "mc < 256 ^ 4" "length lines < 256 ^ 4"
    and w1: "write_strp (?h @ to_bytes bo 4 tf @ to_bytes bo 4 mc @ to_bytes bo 4 (length lines)) bo lines
              = Inr (f4, sm)"
    and w2: "write_lnp f4 bo lines sm = Inr (f5, lm)"
    and w3: "write_lnt f5 bo lines lm = Inr bs"
    by (auto simp: write_csb_def Let_def bind_eq_Inr pack_eq_Inr)
  from write_strp_eq(1)[OF w1] obtain r1 where
    "f4 = (?h @ to_bytes bo 4 tf @ to_bytes bo 4 mc @ to_bytes bo 4 (length lines)) @ r1"
    by blast
  moreover from write_lnp_prefix[OF w2] obtain r2 where "f5 = f4 @ r2" by blast
  moreover from write_lnt_prefix[OF w3] obtain r3 where "bs = f5 @ r3" by blast
  ultimately have "bs = CSB_MAGIC @ (if bo = Little then [255, 254] else [254, 255])
            @ [0, 1, 255, 255, 0, 0]
            @ to_bytes bo 4 tf @ to_bytes bo 4 mc @ to_bytes bo 4 (length lines) @ (r1 @ r2 @ r3)"
    by simp
  then show "\<exists>rest. bs = CSB_MAGIC @ (if bo = Little then [255, 254] else [254, 255])
            @ [0, 1, 255, 255, 0, 0]
            @ to_bytes bo 4 tf @ to_bytes bo 4 mc @ to_bytes bo 4 (length lines) @ rest"
    by blast
  show "tf < 256 ^ 4" "mc < 256 ^ 4" "length lines < 256 ^ 4" by (rule b)+
qed

lemma segment_at_offset:
  "length pre = p \<Longrightarrow> segment_at (pre @ bs @ post) p bs"
  by (simp add: segment_at_def)

section \<open>The validation of the counts\<close>

lemma read_int_eq_Inr:
  "read_int d bo n p = Inr (v, p') \<longleftrightarrow>
     length (take n (drop p d)) = n \<and> v = from_bytes bo (take n (drop p d)) \<and> p' = p + n"
  by (auto simp: read_int_def f_read_def Let_def unpack_def)

lemma count_lines_eq:
  "count_lines lines (a, m) =
     (a + sum_list (map length lines), Max (insert m (length ` set lines)))"
proof (induction lines arbitrary: a m)
  case Nil
  then show ?case by simp
next
  case (Cons line lines)
  have "Max (insert (max (length line) m) (length ` set lines))
      = Max (insert m (insert (length line) (length ` set lines)))"
    by (rule Max_insert_max) simp
  with Cons show ?case by (simp add: Let_def max.commute)
qed

text \<open>The result of the blocks, whatever the flag.\<close>

lemma read_csb_blocks_validate:
  assumes "read_csb_blocks d bo p False = Inr lines"
  shows "length (take 6 (drop p d)) = 6 \<and>
    read_csb_blocks d bo p True =
     (if length lines \<noteq> from_bytes bo (take 4 (drop (p + 14) d))
      then Inl (Tagged INCONSISTENT_TOTAL_LINES)
      else if sum_list (map length lines) \<noteq> from_bytes bo (take 4 (drop (p + 6) d))
      then Inl (Tagged INCONSISTENT_TOTAL_FIELDS)
      else if Max (insert 0 (length ` set lines)) \<noteq> from_bytes bo (take 4 (drop (p + 10) d))
      then Inl (Tagged INCONSISTENT_MAX_COLUMNS)
      else Inr lines)"
proof -
  define p3 where "p3 = p + length (take 6 (drop p d))"
  from assms obtain tf p4 mc p5 tl p6 sm p7 lm p8 p9 where
    r1: "read_int d bo 4 p3 = Inr (tf, p4)" and r2: "read_int d bo 4 p4 = Inr (mc, p5)"
    and r3: "read_int d bo 4 p5 = Inr (tl, p6)"
    and s: "read_strp d bo p6 = Inr (sm, p7)" and l: "read_lnp d bo sm p7 = Inr (lm, p8)"
    and t: "read_lnt d bo lm p8 = Inr (lines, p9)"
    by (auto simp: read_csb_blocks_def f_read_def Let_def bind_eq_Inr p3_def)
  from r1 have "length (take 4 (drop p3 d)) = 4" by (simp add: read_int_eq_Inr)
  then have "p3 < length d" by (cases "p3 < length d") simp_all
  then have six: "length (take 6 (drop p d)) = 6"
    unfolding p3_def by (simp add: min_def split: if_splits)
  then have p3: "p3 = p + 6" by (simp add: p3_def)
  from r1 r2 r3 have v: "tf = from_bytes bo (take 4 (drop (p + 6) d))"
    "mc = from_bytes bo (take 4 (drop (p + 10) d))" "tl = from_bytes bo (take 4 (drop (p + 14) d))"
    by (auto simp: read_int_eq_Inr p3 add.commute)
  have "read_csb_blocks d bo p True =
     (if length lines \<noteq> tl then Inl (Tagged INCONSISTENT_TOTAL_LINES)
      else if sum_list (map length lines) \<noteq> tf then Inl (Tagged INCONSISTENT_TOTAL_FIELDS)
      else if Max (insert 0 (length ` set lines)) \<noteq> mc then Inl (Tagged INCONSISTENT_MAX_COLUMNS)
      else Inr lines)"
    using r1[unfolded p3] r2 r3 s l t six
    by (simp add: read_csb_blocks_def f_read_def Let_def count_lines_eq)
  with six show ?thesis by (simp add: v)
qed


section \<open>Evaluating the codec on a literal\<close>

lemma le_bytes_numeral:
  "le_bytes (numeral k) v = of_nat (v mod 256) # le_bytes (pred_numeral k) (v div 256)"
proof -
  have "le_bytes (Suc (pred_numeral k)) v
      = of_nat (v mod 256) # le_bytes (pred_numeral k) (v div 256)"
    by (rule le_bytes.simps(2))
  then show ?thesis by (simp only: numeral_eq_Suc[symmetric])
qed

lemmas write_eval =
  write_csb_def write_strp_def write_lnp_def write_lnt_def Let_def pack_def to_bytes_def
  le_bytes_numeral get_unique_strs_def write_c_string_def utf8_encode_def encode_cp_def
  CSB_MAGIC_def STRP_MAGIC_def LNP_MAGIC_def LNT_MAGIC_def

lemma example_written: "write_csb example_table Little = Inr example_stream"
  by (simp add: write_eval example_table_def example_stream_def)


lemma read_strp_loop_numeral:
  "read_strp_loop d (numeral k) pos strings =
     bind (read_c_string d pos) (\<lambda>(string, p').
       read_strp_loop d (pred_numeral k) p' (strings(pos \<mapsto> string)))"
proof -
  have "read_strp_loop d (Suc (pred_numeral k)) pos strings =
     bind (read_c_string d pos) (\<lambda>(string, p').
       read_strp_loop d (pred_numeral k) p' (strings(pos \<mapsto> string)))"
    by (rule read_strp_loop.simps(2))
  then show ?thesis by (simp only: numeral_eq_Suc[symmetric])
qed

lemma read_lnp_fields_numeral:
  "read_lnp_fields d byte_order str_map (numeral k) p line =
     bind (read_int d byte_order 8 p) (\<lambda>(str_pos, p').
       case str_map str_pos of
         None \<Rightarrow> Inl (Raised KeyError)
       | Some string \<Rightarrow> read_lnp_fields d byte_order str_map (pred_numeral k) p' (line @ [string]))"
proof -
  have "read_lnp_fields d byte_order str_map (Suc (pred_numeral k)) p line =
     bind (read_int d byte_order 8 p) (\<lambda>(str_pos, p').
       case str_map str_pos of
         None \<Rightarrow> Inl (Raised KeyError)
       | Some string \<Rightarrow> read_lnp_fields d byte_order str_map (pred_numeral k) p' (line @ [string]))"
    by (rule read_lnp_fields.simps(2))
  then show ?thesis by (simp only: numeral_eq_Suc[symmetric])
qed

lemma read_lnp_loop_numeral:
  "read_lnp_loop d byte_order str_map (numeral k) pos lines =
     bind (read_int d byte_order 8 pos) (\<lambda>(column_count, p1).
       bind (read_int d byte_order 8 p1) (\<lambda>(line_start_pos, p2).
         bind (f_seek line_start_pos) (\<lambda>p3.
           bind (read_lnp_fields d byte_order str_map column_count p3 []) (\<lambda>(line, p4).
             read_lnp_loop d byte_order str_map (pred_numeral k) p4 (lines(pos \<mapsto> line))))))"
proof -
  have "read_lnp_loop d byte_order str_map (Suc (pred_numeral k)) pos lines =
     bind (read_int d byte_order 8 pos) (\<lambda>(column_count, p1).
       bind (read_int d byte_order 8 p1) (\<lambda>(line_start_pos, p2).
         bind (f_seek line_start_pos) (\<lambda>p3.
           bind (read_lnp_fields d byte_order str_map column_count p3 []) (\<lambda>(line, p4).
             read_lnp_loop d byte_order str_map (pred_numeral k) p4 (lines(pos \<mapsto> line))))))"
    by (rule read_lnp_loop.simps(2))
  then show ?thesis by (simp only: numeral_eq_Suc[symmetric])
qed

lemma read_lnt_loop_numeral:
  "read_lnt_loop d byte_order line_map (numeral k) p lines =
     bind (read_int d byte_order 8 p) (\<lambda>(line_pos, p').
       case line_map line_pos of
         None \<Rightarrow> Inl (Raised KeyError)
       | Some line \<Rightarrow> read_lnt_loop d byte_order line_map (pred_numeral k) p' (lines @ [line]))"
proof -
  have "read_lnt_loop d byte_order line_map (Suc (pred_numeral k)) p lines =
     bind (read_int d byte_order 8 p) (\<lambda>(line_pos, p').
       case line_map line_pos of
         None \<Rightarrow> Inl (Raised KeyError)
       | Some line \<Rightarrow> read_lnt_loop d byte_order line_map (pred_numeral k) p' (lines @ [line]))"
    by (rule read_lnt_loop.simps(2))
  then show ?thesis by (simp only: numeral_eq_Suc[symmetric])
qed

lemmas read_eval =
  read_csb_def read_csb_blocks_def read_strp_def read_lnp_def read_lnt_def read_int_def
  f_read_def f_seek_def unpack_def from_bytes_def Let_def
  read_strp_loop_numeral read_lnp_fields_numeral read_lnp_loop_numeral read_lnt_loop_numeral
  read_c_string_def read_c_string_loop.simps decode1
  CSB_MAGIC_def STRP_MAGIC_def LNP_MAGIC_def LNT_MAGIC_def

lemma example_read: "read_csb example_stream True = Inr example_table"
  by (simp add: read_eval example_table_def example_stream_def)

section \<open>The failures of the reader\<close>














section \<open>The order of the consistency checks\<close>

lemma read_csb_cases:
  "read_csb d v =
     (if take 4 d \<noteq> CSB_MAGIC then Inl (Tagged INVALID_CSB_MAGIC)
      else if take 2 (drop 4 d) = [255, 254] then read_csb_blocks d Little 6 v
      else if take 2 (drop 4 d) = [254, 255] then read_csb_blocks d Big 6 v
      else Inl (Tagged INVALID_BYTE_ORDER))"
proof (cases "take 4 d = CSB_MAGIC")
  case False
  then show ?thesis by (simp add: read_csb_def f_read_def Let_def)
next
  case True
  have "f_read d 0 4 = (take 4 d, length (take 4 d))" by (simp add: f_read_def Let_def)
  with True have r1: "f_read d 0 4 = (CSB_MAGIC, 4)" by (simp add: CSB_MAGIC_def)
  have r2: "f_read d 4 2 = (take 2 (drop 4 d), 4 + length (take 2 (drop 4 d)))"
    by (simp add: f_read_def Let_def)
  consider (le) "take 2 (drop 4 d) = [255, 254]" | (be) "take 2 (drop 4 d) = [254, 255]"
    | (other) "take 2 (drop 4 d) \<noteq> [255, 254]" "take 2 (drop 4 d) \<noteq> [254, 255]"
    by blast
  then show ?thesis
  proof cases
    case le
    with r2 have "f_read d 4 2 = ([255, 254], 6)" by simp
    with r1 True le show ?thesis by (simp add: read_csb_def)
  next
    case be
    with r2 have "f_read d 4 2 = ([254, 255], 6)" by simp
    with r1 True be show ?thesis by (simp add: read_csb_def)
  next
    case other
    with r1 r2 True show ?thesis by (simp add: read_csb_def)
  qed
qed

lemma read_csb_validate:
  assumes "read_csb d False = Inr lines"
  shows "read_csb d True =
     (let bo = (if take 2 (drop 4 d) = [255, 254] then Little else Big) in
      if length lines \<noteq> from_bytes bo (take 4 (drop 20 d))
      then Inl (Tagged INCONSISTENT_TOTAL_LINES)
      else if sum_list (map length lines) \<noteq> from_bytes bo (take 4 (drop 12 d))
      then Inl (Tagged INCONSISTENT_TOTAL_FIELDS)
      else if Max (insert 0 (length ` set lines)) \<noteq> from_bytes bo (take 4 (drop 16 d))
      then Inl (Tagged INCONSISTENT_MAX_COLUMNS)
      else Inr lines)"
proof -
  from assms have m: "take 4 d = CSB_MAGIC"
    by (subst (asm) read_csb_cases) (simp split: if_splits)
  show ?thesis
  proof (cases "take 2 (drop 4 d) = [255, 254]")
    case True
    with assms m have "read_csb_blocks d Little 6 False = Inr lines"
      by (subst (asm) read_csb_cases) simp
    from read_csb_blocks_validate[OF this] True m show ?thesis
      by (subst read_csb_cases) (simp add: Let_def)
  next
    case False
    with assms m have b: "take 2 (drop 4 d) = [254, 255]"
      and "read_csb_blocks d Big 6 False = Inr lines"
      by (subst (asm) read_csb_cases, simp split: if_splits)+
    from read_csb_blocks_validate[OF this(2)] False b m show ?thesis
      by (subst read_csb_cases) (simp add: Let_def)
  qed
qed

lemma tampered_read: "read_csb tampered_stream False = Inr example_table"
  by (simp add: read_eval example_table_def tampered_stream_def)

text \<open>
  C2 (as amended).  The three checks are made in the order lines, fields, columns, and
  the first that fails decides: for every stream that decodes without validation, the
  result with validation is the first of \<open>INCONSISTENT_TOTAL_LINES\<close>,
  \<open>INCONSISTENT_TOTAL_FIELDS\<close>, \<open>INCONSISTENT_MAX_COLUMNS\<close> whose count disagrees
  with the header, and the table when none does.  In particular a stream whose line
  count is right and whose field and column counts are both wrong fails with
  \<open>INCONSISTENT_TOTAL_FIELDS\<close>.
\<close>

theorem checks_lines_fields_columns:
  assumes "read_csb d False = Inr lines"
  shows "read_csb d True =
     (let bo = (if take 2 (drop 4 d) = [255, 254] then Little else Big) in
      if length lines \<noteq> from_bytes bo (take 4 (drop 20 d))
      then Inl (Tagged INCONSISTENT_TOTAL_LINES)
      else if sum_list (map length lines) \<noteq> from_bytes bo (take 4 (drop 12 d))
      then Inl (Tagged INCONSISTENT_TOTAL_FIELDS)
      else if Max (insert 0 (length ` set lines)) \<noteq> from_bytes bo (take 4 (drop 16 d))
      then Inl (Tagged INCONSISTENT_MAX_COLUMNS)
      else Inr lines)"
  using assms by (rule read_csb_validate)

theorem checks_lines_fields_columns_witness:
  "read_csb tampered_stream False = Inr example_table
   \<and> read_csb tampered_stream True = Inl (Tagged INCONSISTENT_TOTAL_FIELDS)"
  using checks_lines_fields_columns[OF tampered_read] tampered_read
  by (simp add: tampered_stream_def example_table_def from_bytes_def Let_def)

text \<open>
  The stream of the example with the header counts 9 fields, 9 columns, 2 lines, where
  the table has 3 fields, at most 2 columns and 2 lines: the line count is right, the
  other two are wrong, and the result is not \<open>INCONSISTENT_MAX_COLUMNS\<close>.
\<close>

theorem max_columns_first_counterexample:
  "read_int tampered_stream Little 4 12 = Inr (9, 16)
   \<and> read_int tampered_stream Little 4 16 = Inr (9, 20)
   \<and> read_int tampered_stream Little 4 20 = Inr (2, 24)
   \<and> read_csb tampered_stream False = Inr [[[97], [98]], [[97]]]
   \<and> read_csb tampered_stream True \<noteq> Inl (Tagged INCONSISTENT_MAX_COLUMNS)"
proof -
  have "read_csb tampered_stream True = Inl (Tagged INCONSISTENT_TOTAL_FIELDS)"
    using read_csb_validate[OF tampered_read]
    by (simp add: tampered_stream_def example_table_def from_bytes_def Let_def)
  moreover have "read_int tampered_stream Little 4 12 = Inr (9, 16)"
    "read_int tampered_stream Little 4 16 = Inr (9, 20)"
    "read_int tampered_stream Little 4 20 = Inr (2, 24)"
    by (simp_all add: read_int_def f_read_def unpack_def from_bytes_def tampered_stream_def)
  ultimately show ?thesis using tampered_read by (simp add: example_table_def)
qed

section \<open>What the writer writes: the line blocks\<close>

lemma length_concat_to_bytes [simp]:
  "length (concat (map (\<lambda>x. to_bytes bo n (h x)) xs)) = n * length xs"
  by (induction xs) simp_all

lemma write_lnp_vals_eq:
  "write_lnp_vals bo sm vals blk = Inr blk' \<Longrightarrow>
     blk' = blk @ concat (map (\<lambda>val. to_bytes bo 8 (the (sm val))) vals)
     \<and> (\<forall>val\<in>set vals. \<exists>a. sm val = Some a \<and> a < 256 ^ 8)"
proof (induction vals arbitrary: blk)
  case Nil
  then show ?case by simp
next
  case (Cons val vals)
  from Cons.prems obtain pos where
    p: "sm val = Some pos" "pos < 256 ^ 8"
    and r: "write_lnp_vals bo sm vals (blk @ to_bytes bo 8 pos) = Inr blk'"
    by (auto simp: bind_eq_Inr pack_eq_Inr split: option.splits)
  from Cons.IH[OF r] p show ?case by simp
qed

lemma write_lnp_loop_eq:
  "write_lnp_loop ft bo sm lines blk lm = Inr (blk', lm') \<Longrightarrow>
     blk' = blk @ lnp_records bo sm (ft + length blk + 4) lines
     \<and> lm' = lm @ lnp_starts (ft + length blk + 4) lines
     \<and> (\<forall>line\<in>set lines. length line < 256 ^ 8
            \<and> (\<forall>val\<in>set line. \<exists>a. sm val = Some a \<and> a < 256 ^ 8))"
proof (induction lines arbitrary: blk lm)
  case Nil
  then show ?case by simp
next
  case (Cons line lines)
  let ?start = "ft + length blk + 4"
  from Cons.prems obtain blk1 where
    b: "length line < 256 ^ 8" "?start + 16 < 256 ^ 8"
    and v: "write_lnp_vals bo sm line (blk @ to_bytes bo 8 (length line) @ to_bytes bo 8 (?start + 16))
              = Inr blk1"
    and r: "write_lnp_loop ft bo sm lines blk1 (lm @ [?start]) = Inr (blk', lm')"
    by (auto simp: Let_def bind_eq_Inr pack_eq_Inr)
  from write_lnp_vals_eq[OF v] have
    blk1: "blk1 = blk @ to_bytes bo 8 (length line) @ to_bytes bo 8 (?start + 16)
                    @ concat (map (\<lambda>val. to_bytes bo 8 (the (sm val))) line)"
    and f: "\<forall>val\<in>set line. \<exists>a. sm val = Some a \<and> a < 256 ^ 8"
    by simp_all
  have next_start: "ft + length blk1 + 4 = ?start + 16 + 8 * length line"
    by (simp add: blk1)
  from Cons.IH[OF r] show ?case
    using b f by (simp add: next_start) (simp add: blk1)
qed

lemma length_lnp_starts [simp]: "length (lnp_starts a lines) = length lines"
  by (induction lines arbitrary: a) simp_all

lemma write_lnp_eq:
  assumes "write_lnp f0 bo lines sm = Inr (f, lm)"
  defines "recs \<equiv> lnp_records bo sm (length f0 + 16) lines"
  shows "f = f0 @ LNP_MAGIC @ to_bytes bo 4 (length recs + 16) @ to_bytes bo 8 (length lines) @ recs"
    and "lm = lnp_starts (length f0 + 16) lines"
    and "length recs + 16 < 256 ^ 4"
    and "length lines < 256 ^ 8"
    and "\<forall>line\<in>set lines. length line < 256 ^ 8
            \<and> (\<forall>val\<in>set line. \<exists>a. sm val = Some a \<and> a < 256 ^ 8)"
proof -
  from assms(1) obtain blk where
    c: "length lines < 256 ^ 8"
    and l: "write_lnp_loop (length (f0 @ LNP_MAGIC)) bo sm lines (to_bytes bo 8 (length lines)) []
              = Inr (blk, lm)"
    and b: "length blk + 8 < 256 ^ 4"
    and f: "f = (f0 @ LNP_MAGIC) @ to_bytes bo 4 (length blk + 8) @ blk"
    by (auto simp: write_lnp_def Let_def bind_eq_Inr pack_eq_Inr)
  have a: "length (f0 @ LNP_MAGIC) + length (to_bytes bo 8 (length lines)) + 4 = length f0 + 16"
    by (simp add: LNP_MAGIC_def)
  from write_lnp_loop_eq[OF l] have
    blk: "blk = to_bytes bo 8 (length lines) @ recs"
    and lm: "lm = lnp_starts (length f0 + 16) lines"
    and fl: "\<forall>line\<in>set lines. length line < 256 ^ 8
            \<and> (\<forall>val\<in>set line. \<exists>a. sm val = Some a \<and> a < 256 ^ 8)"
    unfolding a recs_def by simp_all
  show "f = f0 @ LNP_MAGIC @ to_bytes bo 4 (length recs + 16) @ to_bytes bo 8 (length lines) @ recs"
    using f blk by (simp add: add.commute)
  show "lm = lnp_starts (length f0 + 16) lines" by (rule lm)
  show "length recs + 16 < 256 ^ 4" using b blk by simp
  show "length lines < 256 ^ 8" by (rule c)
  show "\<forall>line\<in>set lines. length line < 256 ^ 8
            \<and> (\<forall>val\<in>set line. \<exists>a. sm val = Some a \<and> a < 256 ^ 8)"
    by (rule fl)
qed

lemma write_lnt_loop_eq:
  "write_lnt_loop bo lm blk = Inr blk' \<Longrightarrow>
     blk' = blk @ concat (map (to_bytes bo 8) lm) \<and> (\<forall>a\<in>set lm. a < 256 ^ 8)"
proof (induction lm arbitrary: blk)
  case Nil
  then show ?case by simp
next
  case (Cons pos lm)
  from Cons.prems have p: "pos < 256 ^ 8"
    and r: "write_lnt_loop bo lm (blk @ to_bytes bo 8 pos) = Inr blk'"
    by (auto simp: bind_eq_Inr pack_eq_Inr)
  from Cons.IH[OF r] p show ?case by simp
qed

lemma write_lnt_eq:
  assumes "write_lnt f0 bo lines lm = Inr f"
  shows "f = f0 @ LNT_MAGIC @ to_bytes bo 4 (8 * length lm + 16) @ to_bytes bo 8 (length lines)
             @ concat (map (to_bytes bo 8) lm)"
    and "8 * length lm + 16 < 256 ^ 4"
    and "length lines < 256 ^ 8"
    and "\<forall>a\<in>set lm. a < 256 ^ 8"
proof -
  from assms obtain blk where
    c: "length lines < 256 ^ 8"
    and l: "write_lnt_loop bo lm (to_bytes bo 8 (length lines)) = Inr blk"
    and b: "length blk + 8 < 256 ^ 4"
    and f: "f = (f0 @ LNT_MAGIC) @ to_bytes bo 4 (length blk + 8) @ blk"
    by (auto simp: write_lnt_def Let_def bind_eq_Inr pack_eq_Inr)
  from write_lnt_loop_eq[OF l] have
    blk: "blk = to_bytes bo 8 (length lines) @ concat (map (to_bytes bo 8) lm)"
    and a: "\<forall>a\<in>set lm. a < 256 ^ 8"
    by simp_all
  have len: "length blk + 8 = 8 * length lm + 16"
    using length_concat_to_bytes[of bo 8 "\<lambda>x. x" lm] by (simp add: blk)
  show "f = f0 @ LNT_MAGIC @ to_bytes bo 4 (8 * length lm + 16) @ to_bytes bo 8 (length lines)
             @ concat (map (to_bytes bo 8) lm)"
    using f blk len by (simp add: add.commute)
  show "8 * length lm + 16 < 256 ^ 4" using b len by simp
  show "length lines < 256 ^ 8" by (rule c)
  show "\<forall>a\<in>set lm. a < 256 ^ 8" by (rule a)
qed

section \<open>The reader on what the writer wrote\<close>

lemma length_write_c_string: "length (write_c_string [] s) = length (utf8_encode s) + 1"
  by (simp add: write_c_string_def)

lemma read_strp_loop_segment:
  assumes "list_all (\<lambda>s. is_str s \<and> 0 \<notin> set s) strs"
    and "segment_at d p (concat (map (write_c_string []) strs))"
  shows "\<exists>M'. read_strp_loop d (length strs) p M
              = Inr (M', p + length (concat (map (write_c_string []) strs)))
      \<and> (\<forall>i<length strs.
            M' (p + length (concat (map (write_c_string []) (take i strs))))
              = Some (readback (strs ! i)))
      \<and> (\<forall>q<p. M' q = M q)"
  using assms
proof (induction strs arbitrary: p M)
  case Nil
  then show ?case by simp
next
  case (Cons s strs)
  let ?cs = "write_c_string [] s"
  let ?p' = "p + length ?cs"
  from Cons.prems(1) have s: "is_str s" "0 \<notin> set s"
    and rest: "list_all (\<lambda>s. is_str s \<and> 0 \<notin> set s) strs"
    by simp_all
  from Cons.prems(2) have s1: "segment_at d p ?cs"
    and s2: "segment_at d ?p' (concat (map (write_c_string []) strs))"
    by (simp_all add: segment_at_append)
  have r: "read_c_string d p = Inr (readback s, ?p')"
    using s1 s by (rule read_c_string_segment)
  from Cons.IH[OF rest s2, of "M(p \<mapsto> readback s)"] obtain M' where
    l: "read_strp_loop d (length strs) ?p' (M(p \<mapsto> readback s))
          = Inr (M', ?p' + length (concat (map (write_c_string []) strs)))"
    and m: "\<forall>i<length strs.
            M' (?p' + length (concat (map (write_c_string []) (take i strs))))
              = Some (readback (strs ! i))"
    and o: "\<forall>q<?p'. M' q = (M(p \<mapsto> readback s)) q"
    by blast
  have pos: "p < ?p'" by (simp add: length_write_c_string)
  have "read_strp_loop d (length (s # strs)) p M
          = Inr (M', p + length (concat (map (write_c_string []) (s # strs))))"
    using r l by (simp add: add.assoc)
  moreover have "\<forall>i<length (s # strs).
            M' (p + length (concat (map (write_c_string []) (take i (s # strs)))))
              = Some (readback ((s # strs) ! i))"
  proof (intro allI impI)
    fix i assume i: "i < length (s # strs)"
    show "M' (p + length (concat (map (write_c_string []) (take i (s # strs)))))
              = Some (readback ((s # strs) ! i))"
    proof (cases i)
      case 0
      with o pos show ?thesis by simp
    next
      case (Suc j)
      with i m show ?thesis by (simp add: add.assoc)
    qed
  qed
  moreover have "\<forall>q<p. M' q = M q" using o pos by simp
  ultimately show ?case by blast
qed

lemma read_lnp_fields_segment:
  assumes "segment_at d p (concat (map (\<lambda>val. to_bytes bo 8 (addr val)) vals))"
    and "\<forall>val\<in>set vals. addr val < 256 ^ 8 \<and> rsm (addr val) = Some (g val)"
  shows "read_lnp_fields d bo rsm (length vals) p acc
           = Inr (acc @ map g vals, p + 8 * length vals)"
  using assms
proof (induction vals arbitrary: p acc)
  case Nil
  then show ?case by simp
next
  case (Cons val vals)
  from Cons.prems(1) have s1: "segment_at d p (to_bytes bo 8 (addr val))"
    and s2: "segment_at d (p + 8) (concat (map (\<lambda>val. to_bytes bo 8 (addr val)) vals))"
    by (simp_all add: segment_at_append)
  from Cons.prems(2) have a: "addr val < 256 ^ 8" "rsm (addr val) = Some (g val)"
    and rest: "\<forall>val\<in>set vals. addr val < 256 ^ 8 \<and> rsm (addr val) = Some (g val)"
    by simp_all
  have r: "read_int d bo 8 p = Inr (addr val, p + 8)"
    using s1 a(1) by (rule read_int_segment)
  have "read_lnp_fields d bo rsm (length vals) (p + 8) (acc @ [g val])
          = Inr ((acc @ [g val]) @ map g vals, p + 8 + 8 * length vals)"
    using s2 rest by (rule Cons.IH)
  then show ?case using r a(2) by simp
qed

lemma length_lnp_records_ge:
  "length (lnp_records bo sm a (line # lines)) \<ge> 16 + 8 * length line"
  by simp

lemma read_lnp_loop_segment:
  assumes "segment_at d a (lnp_records bo sm a lines)"
    and "\<forall>line\<in>set lines. length line < 256 ^ 8
           \<and> (\<forall>val\<in>set line. the (sm val) < 256 ^ 8 \<and> rsm (the (sm val)) = Some (g val))"
    and "a + length (lnp_records bo sm a lines) < 2 ^ 63"
  shows "\<exists>L'. read_lnp_loop d bo rsm (length lines) a L
              = Inr (L', a + length (lnp_records bo sm a lines))
      \<and> (\<forall>i<length lines. L' (lnp_starts a lines ! i) = Some (map g (lines ! i)))
      \<and> (\<forall>q<a. L' q = L q)"
  using assms
proof (induction lines arbitrary: a L)
  case Nil
  then show ?case by simp
next
  case (Cons line lines)
  let ?fields = "concat (map (\<lambda>val. to_bytes bo 8 (the (sm val))) line)"
  let ?a' = "a + 16 + 8 * length line"
  from Cons.prems(1) have s1: "segment_at d a (to_bytes bo 8 (length line))"
    and s2: "segment_at d (a + 8) (to_bytes bo 8 (a + 16))"
    and s3: "segment_at d (a + 16) ?fields"
    and s4: "segment_at d ?a' (lnp_records bo sm ?a' lines)"
    by (simp_all add: segment_at_append add.assoc)
  from Cons.prems(2) have len: "length line < 256 ^ 8"
    and fl: "\<forall>val\<in>set line. the (sm val) < 256 ^ 8 \<and> rsm (the (sm val)) = Some (g val)"
    and rest: "\<forall>line\<in>set lines. length line < 256 ^ 8
           \<and> (\<forall>val\<in>set line. the (sm val) < 256 ^ 8 \<and> rsm (the (sm val)) = Some (g val))"
    by simp_all
  from Cons.prems(3) have b: "a + 16 < 2 ^ 63"
    and b': "?a' + length (lnp_records bo sm ?a' lines) < 2 ^ 63"
    by simp_all
  from b have b8: "a + 16 < (256::nat) ^ 8" by simp
  have r1: "read_int d bo 8 a = Inr (length line, a + 8)"
    using s1 len by (rule read_int_segment)
  have r2: "read_int d bo 8 (a + 8) = Inr (a + 16, a + 8 + 8)"
    using s2 b8 by (rule read_int_segment)
  have r3: "f_seek (a + 16) = Inr (a + 16)" using b by (simp add: f_seek_def)
  have r4: "read_lnp_fields d bo rsm (length line) (a + 16) [] = Inr ([] @ map g line, a + 16 + 8 * length line)"
    using s3 fl by (rule read_lnp_fields_segment)
  from Cons.IH[OF s4 rest b', of "L(a \<mapsto> map g line)"] obtain L' where
    l: "read_lnp_loop d bo rsm (length lines) ?a' (L(a \<mapsto> map g line))
          = Inr (L', ?a' + length (lnp_records bo sm ?a' lines))"
    and m: "\<forall>i<length lines. L' (lnp_starts ?a' lines ! i) = Some (map g (lines ! i))"
    and o: "\<forall>q<?a'. L' q = (L(a \<mapsto> map g line)) q"
    by blast
  have "read_lnp_loop d bo rsm (length (line # lines)) a L
          = Inr (L', a + length (lnp_records bo sm a (line # lines)))"
    using r1 r2 r3 r4 l by (simp add: add.assoc)
  moreover have "\<forall>i<length (line # lines).
      L' (lnp_starts a (line # lines) ! i) = Some (map g ((line # lines) ! i))"
  proof (intro allI impI)
    fix i assume i: "i < length (line # lines)"
    show "L' (lnp_starts a (line # lines) ! i) = Some (map g ((line # lines) ! i))"
    proof (cases i)
      case 0
      with o show ?thesis by simp
    next
      case (Suc j)
      with i m show ?thesis by simp
    qed
  qed
  moreover have "\<forall>q<a. L' q = L q" using o by simp
  ultimately show ?case by blast
qed

lemma read_lnt_loop_segment:
  assumes "segment_at d p (concat (map (to_bytes bo 8) addrs))"
    and "list_all2 (\<lambda>a row. a < 256 ^ 8 \<and> L a = Some row) addrs rows"
  shows "read_lnt_loop d bo L (length addrs) p acc = Inr (acc @ rows, p + 8 * length addrs)"
  using assms(2,1)
proof (induction arbitrary: p acc rule: list_all2_induct)
  case Nil
  then show ?case by simp
next
  case (Cons a addrs row rows)
  from Cons.prems have s1: "segment_at d p (to_bytes bo 8 a)"
    and s2: "segment_at d (p + 8) (concat (map (to_bytes bo 8) addrs))"
    by (simp_all add: segment_at_append)
  from Cons.hyps(1) have a: "a < 256 ^ 8" "L a = Some row" by simp_all
  have r: "read_int d bo 8 p = Inr (a, p + 8)" using s1 a(1) by (rule read_int_segment)
  have "read_lnt_loop d bo L (length addrs) (p + 8) (acc @ [row])
          = Inr ((acc @ [row]) @ rows, p + 8 + 8 * length addrs)"
    using s2 by (rule Cons.IH)
  then show ?case using r a(2) by simp
qed

lemma segment_at_cong:
  assumes "drop k d = drop k d'" and "k \<le> p"
  shows "segment_at d p bs = segment_at d' p bs"
proof -
  have "drop p d = drop (p - k) (drop k d)" using assms(2) by simp
  also have "\<dots> = drop (p - k) (drop k d')" by (simp only: assms(1))
  also have "\<dots> = drop p d'" using assms(2) by simp
  finally show ?thesis by (simp add: segment_at_def)
qed

lemma read_strp_segment:
  assumes "segment_at d p
      (STRP_MAGIC @ to_bytes bo 4 (length pool + 16) @ to_bytes bo 8 (length u) @ pool)"
    and "pool = concat (map (write_c_string []) u)"
    and "list_all (\<lambda>s. is_str s \<and> 0 \<notin> set s) u"
    and "length pool + 16 < 256 ^ 4" and "length u < 256 ^ 8"
    and "p + (length pool + 16) < 2 ^ 63"
  shows "\<exists>M. read_strp d bo p = Inr (M, p + (length pool + 16))
      \<and> (\<forall>i<length u.
            M (p + 16 + length (concat (map (write_c_string []) (take i u))))
              = Some (readback (u ! i)))"
proof -
  have lm: "length STRP_MAGIC = 4" by (simp add: STRP_MAGIC_def)
  from assms(1) have s1: "segment_at d p STRP_MAGIC"
    and s2: "segment_at d (p + 4) (to_bytes bo 4 (length pool + 16))"
    and s3: "segment_at d (p + 4 + 4) (to_bytes bo 8 (length u))"
    and s4: "segment_at d (p + 16) (concat (map (write_c_string []) u))"
    by (simp_all add: segment_at_append lm add.assoc assms(2))
  have r1: "f_read d p 4 = (STRP_MAGIC, p + 4)"
    using f_read_segment[OF s1] by (simp add: lm)
  have r2: "read_int d bo 4 (p + 4) = Inr (length pool + 16, p + 4 + 4)"
    using s2 assms(4) by (rule read_int_segment)
  have r3: "read_int d bo 8 (p + 4 + 4) = Inr (length u, p + 4 + 4 + 8)"
    using s3 assms(5) by (rule read_int_segment)
  from read_strp_loop_segment[OF assms(3) s4, of Map.empty] obtain M where
    l: "read_strp_loop d (length u) (p + 16) Map.empty = Inr (M, p + 16 + length pool)"
    and m: "\<forall>i<length u.
            M (p + 16 + length (concat (map (write_c_string []) (take i u))))
              = Some (readback (u ! i))"
    by (auto simp: assms(2))
  have r5: "f_seek (p + (length pool + 16)) = Inr (p + (length pool + 16))"
    using assms(6) by (simp add: f_seek_def)
  have "read_strp d bo p = Inr (M, p + (length pool + 16))"
    using r1 r2 r3 l r5 by (simp add: read_strp_def add.assoc)
  with m show ?thesis by blast
qed

lemma read_lnp_segment:
  assumes "segment_at d p
      (LNP_MAGIC @ to_bytes bo 4 (length recs + 16) @ to_bytes bo 8 (length lines) @ recs)"
    and "recs = lnp_records bo sm (p + 16) lines"
    and "\<forall>line\<in>set lines. length line < 256 ^ 8
           \<and> (\<forall>val\<in>set line. the (sm val) < 256 ^ 8 \<and> rsm (the (sm val)) = Some (g val))"
    and "length recs + 16 < 256 ^ 4" and "length lines < 256 ^ 8"
    and "p + (length recs + 16) < 2 ^ 63"
  shows "\<exists>L. read_lnp d bo rsm p = Inr (L, p + (length recs + 16))
      \<and> (\<forall>i<length lines. L (lnp_starts (p + 16) lines ! i) = Some (map g (lines ! i)))"
proof -
  have lm: "length LNP_MAGIC = 4" by (simp add: LNP_MAGIC_def)
  from assms(1) have s1: "segment_at d p LNP_MAGIC"
    and s2: "segment_at d (p + 4) (to_bytes bo 4 (length recs + 16))"
    and s3: "segment_at d (p + 4 + 4) (to_bytes bo 8 (length lines))"
    and s4: "segment_at d (p + 16) (lnp_records bo sm (p + 16) lines)"
    by (simp_all add: segment_at_append lm add.assoc assms(2))
  have r1: "f_read d p 4 = (LNP_MAGIC, p + 4)"
    using f_read_segment[OF s1] by (simp add: lm)
  have r2: "read_int d bo 4 (p + 4) = Inr (length recs + 16, p + 4 + 4)"
    using s2 assms(4) by (rule read_int_segment)
  have r3: "read_int d bo 8 (p + 4 + 4) = Inr (length lines, p + 4 + 4 + 8)"
    using s3 assms(5) by (rule read_int_segment)
  have b: "p + 16 + length (lnp_records bo sm (p + 16) lines) < 2 ^ 63"
    using assms(6) by (simp add: assms(2) add.commute add.left_commute)
  from read_lnp_loop_segment[OF s4 assms(3) b, of Map.empty] obtain L where
    l: "read_lnp_loop d bo rsm (length lines) (p + 16) Map.empty = Inr (L, p + 16 + length recs)"
    and m: "\<forall>i<length lines. L (lnp_starts (p + 16) lines ! i) = Some (map g (lines ! i))"
    by (auto simp: assms(2))
  have r5: "f_seek (p + (length recs + 16)) = Inr (p + (length recs + 16))"
    using assms(6) by (simp add: f_seek_def)
  have "read_lnp d bo rsm p = Inr (L, p + (length recs + 16))"
    using r1 r2 r3 l r5 by (simp add: read_lnp_def add.assoc)
  with m show ?thesis by blast
qed

lemma read_lnt_segment:
  assumes "segment_at d p
      (LNT_MAGIC @ to_bytes bo 4 (8 * length addrs + 16) @ to_bytes bo 8 (length addrs)
         @ concat (map (to_bytes bo 8) addrs))"
    and "list_all2 (\<lambda>a row. a < 256 ^ 8 \<and> L a = Some row) addrs rows"
    and "8 * length addrs + 16 < 256 ^ 4" and "length addrs < 256 ^ 8"
    and "p + (8 * length addrs + 16) < 2 ^ 63"
  shows "read_lnt d bo L p = Inr (rows, p + (8 * length addrs + 16))"
proof -
  have lm: "length LNT_MAGIC = 4" by (simp add: LNT_MAGIC_def)
  from assms(1) have s1: "segment_at d p LNT_MAGIC"
    and s2: "segment_at d (p + 4) (to_bytes bo 4 (8 * length addrs + 16))"
    and s3: "segment_at d (p + 4 + 4) (to_bytes bo 8 (length addrs))"
    and s4: "segment_at d (p + 16) (concat (map (to_bytes bo 8) addrs))"
    by (simp_all add: segment_at_append lm add.assoc)
  have r1: "f_read d p 4 = (LNT_MAGIC, p + 4)"
    using f_read_segment[OF s1] by (simp add: lm)
  have r2: "read_int d bo 4 (p + 4) = Inr (8 * length addrs + 16, p + 4 + 4)"
    using s2 assms(3) by (rule read_int_segment)
  have r3: "read_int d bo 8 (p + 4 + 4) = Inr (length addrs, p + 4 + 4 + 8)"
    using s3 assms(4) by (rule read_int_segment)
  have l: "read_lnt_loop d bo L (length addrs) (p + 16) [] = Inr ([] @ rows, p + 16 + 8 * length addrs)"
    using s4 assms(2) by (rule read_lnt_loop_segment)
  have r5: "f_seek (p + (8 * length addrs + 16)) = Inr (p + (8 * length addrs + 16))"
    using assms(5) by (simp add: f_seek_def)
  show ?thesis
    using r1 r2 r3 l r5 by (simp add: read_lnt_def add.assoc add.commute)
qed

lemma storable_fields:
  "storable lines \<Longrightarrow> val \<in> set (concat lines) \<Longrightarrow> is_str val \<and> 0 \<notin> set val"
  by (auto simp: storable_def list_all_iff)

lemma storable_unique:
  assumes "storable lines"
  shows "list_all (\<lambda>s. is_str s \<and> 0 \<notin> set s) (get_unique_strs lines)"
proof -
  have "set (get_unique_strs lines) = set (concat lines)"
    using get_unique_strs_first_occurrence by blast
  with assms show ?thesis
    using storable_fields[OF assms] by (simp add: list_all_iff)
qed

lemma read_written_blocks:
  assumes w1: "write_strp h bo lines = Inr (f4, sm)"
    and w2: "write_lnp f4 bo lines sm = Inr (f5, lm)"
    and w3: "write_lnt f5 bo lines lm = Inr bs"
    and st: "storable lines"
    and hb: "length h \<le> 24"
    and d: "drop (length h) d = drop (length h) bs"
  shows "\<exists>rsm rlm. read_strp d bo (length h) = Inr (rsm, length f4)
      \<and> read_lnp d bo rsm (length f4) = Inr (rlm, length f5)
      \<and> read_lnt d bo rlm (length f5) = Inr (map (map readback) lines, length bs)
      \<and> (\<forall>i<length lines. rlm (lm ! i) = Some (map readback (lines ! i)))"
proof -
  define u where "u = get_unique_strs lines"
  define pool where "pool = concat (map (write_c_string []) u)"
  define recs where "recs = lnp_records bo sm (length f4 + 16) lines"
  let ?B1 = "STRP_MAGIC @ to_bytes bo 4 (length pool + 16) @ to_bytes bo 8 (length u) @ pool"
  let ?B2 = "LNP_MAGIC @ to_bytes bo 4 (length recs + 16) @ to_bytes bo 8 (length lines) @ recs"
  let ?B3 = "LNT_MAGIC @ to_bytes bo 4 (8 * length lm + 16) @ to_bytes bo 8 (length lines)
               @ concat (map (to_bytes bo 8) lm)"
  note s = write_strp_eq[OF w1, folded u_def, folded pool_def]
  note l = write_lnp_eq[OF w2, folded recs_def]
  note t = write_lnt_eq[OF w3]
  have f4: "f4 = h @ ?B1" by (rule s(1))
  have f5: "f5 = f4 @ ?B2" by (rule l(1))
  have bs: "bs = f5 @ ?B3" by (rule t(1))
  have lm: "lm = lnp_starts (length f4 + 16) lines" by (rule l(2))
  have llm: "length lm = length lines" by (simp add: lm)
  have len4: "length f4 = length h + (length pool + 16)"
    by (simp add: f4 STRP_MAGIC_def)
  have len5: "length f5 = length f4 + (length recs + 16)"
    by (simp add: f5 LNP_MAGIC_def)
  have lenb: "length bs = length f5 + (8 * length lm + 16)"
    using length_concat_to_bytes[of bo 8 "\<lambda>x. x" lm] by (simp add: bs LNT_MAGIC_def)
  have p32: "(256::nat) ^ 4 = 4294967296" by simp
  have b1: "length h + (length pool + 16) < 2 ^ 63" using s(2) hb by (simp add: p32)
  have b2: "length f4 + (length recs + 16) < 2 ^ 63" using s(2) l(3) hb by (simp add: len4 p32)
  have b3: "length f5 + (8 * length lm + 16) < 2 ^ 63"
    using s(2) l(3) t(2) hb by (simp add: len4 len5 p32)
  have e1: "bs = h @ ?B1 @ (?B2 @ ?B3)" by (simp add: bs f5 f4)
  have "segment_at bs (length h) ?B1" by (subst e1) (rule segment_at_middle)
  then have g1: "segment_at d (length h) ?B1"
    using segment_at_cong[OF d, of "length h"] by simp
  have e2: "bs = f4 @ ?B2 @ ?B3" by (simp add: bs f5)
  have "segment_at bs (length f4) ?B2" by (subst e2) (rule segment_at_middle)
  then have g2: "segment_at d (length f4) ?B2"
    using segment_at_cong[OF d, of "length f4"] by (simp add: len4)
  have "segment_at bs (length f5) ?B3" by (subst bs) (rule segment_at_whole)
  then have g3: "segment_at d (length f5) ?B3"
    using segment_at_cong[OF d, of "length f5"] by (simp add: len5 len4)
  have su: "list_all (\<lambda>s. is_str s \<and> 0 \<notin> set s) u"
    unfolding u_def using st by (rule storable_unique)
  from read_strp_segment[OF g1 pool_def su s(2) s(3) b1] obtain rsm where
    r1: "read_strp d bo (length h) = Inr (rsm, length f4)"
    and m1: "\<forall>i<length u.
            rsm (length h + 16 + length (concat (map (write_c_string []) (take i u))))
              = Some (readback (u ! i))"
    by (auto simp: len4)
  have setu: "set u = set (concat lines)"
    unfolding u_def using get_unique_strs_first_occurrence by blast
  have fields: "\<forall>line\<in>set lines. length line < 256 ^ 8
           \<and> (\<forall>val\<in>set line. the (sm val) < 256 ^ 8 \<and> rsm (the (sm val)) = Some (readback val))"
  proof (intro ballI conjI)
    fix line assume line: "line \<in> set lines"
    with l(5) show "length line < 256 ^ 8" by blast
    fix val assume val: "val \<in> set line"
    with line l(5) show "the (sm val) < 256 ^ 8" by fastforce
    from line val have "val \<in> set u" by (auto simp: setu)
    then obtain i where i: "i < length u" "u ! i = val" by (auto simp: in_set_conv_nth)
    with s(4) have "sm val = Some (length h + 16 + length (concat (map (write_c_string []) (take i u))))"
      by auto
    with m1 i show "rsm (the (sm val)) = Some (readback val)" by auto
  qed
  from read_lnp_segment[OF g2 recs_def fields l(3) l(4) b2] obtain rlm where
    r2: "read_lnp d bo rsm (length f4) = Inr (rlm, length f5)"
    and m2: "\<forall>i<length lines. rlm (lm ! i) = Some (map readback (lines ! i))"
    by (auto simp: len5 lm)
  have rows: "list_all2 (\<lambda>a row. a < 256 ^ 8 \<and> rlm a = Some row) lm (map (map readback) lines)"
    using m2 t(4) llm by (simp add: list_all2_conv_all_nth)
  have g3': "segment_at d (length f5)
      (LNT_MAGIC @ to_bytes bo 4 (8 * length lm + 16) @ to_bytes bo 8 (length lm)
         @ concat (map (to_bytes bo 8) lm))"
    using g3 by (simp add: llm)
  have c3: "length lm < 256 ^ 8" using t(3) by (simp add: llm)
  have r3: "read_lnt d bo rlm (length f5) = Inr (map (map readback) lines, length bs)"
    using read_lnt_segment[OF g3' rows t(2) c3 b3] by (simp add: lenb)
  from r1 r2 r3 m2 show ?thesis by blast
qed

section \<open>Decoding an encoded table\<close>

lemma write_csb_parts:
  assumes "write_csb lines bo = Inr bs"
  shows "\<exists>f4 sm f5 lm.
      write_strp (take 24 bs) bo lines = Inr (f4, sm)
    \<and> write_lnp f4 bo lines sm = Inr (f5, lm)
    \<and> write_lnt f5 bo lines lm = Inr bs
    \<and> length (take 24 bs) = 24
    \<and> take 4 bs = CSB_MAGIC
    \<and> take 2 (drop 4 bs) = (if bo = Little then [255, 254] else [254, 255])"
proof -
  obtain tf mc where hc: "header_counts lines (0, 0) = (tf, mc)"
    by (cases "header_counts lines (0, 0)")
  define h where "h = ((CSB_MAGIC @ (if bo = Little then [255, 254] else [254, 255]))
      @ [0, 1, 255, 255, 0, 0]) @ to_bytes bo 4 tf @ to_bytes bo 4 mc @ to_bytes bo 4 (length lines)"
  from assms hc obtain f4 sm f5 lm where
    w1: "write_strp h bo lines = Inr (f4, sm)"
    and w2: "write_lnp f4 bo lines sm = Inr (f5, lm)"
    and w3: "write_lnt f5 bo lines lm = Inr bs"
    by (auto simp: write_csb_def Let_def bind_eq_Inr pack_eq_Inr h_def)
  have lh: "length h = 24" by (simp add: h_def CSB_MAGIC_def)
  from write_strp_eq(1)[OF w1] obtain r1 where "f4 = h @ r1" by blast
  moreover from write_lnp_prefix[OF w2] obtain r2 where "f5 = f4 @ r2" by blast
  moreover from write_lnt_prefix[OF w3] obtain r3 where "bs = f5 @ r3" by blast
  ultimately have bs: "bs = h @ (r1 @ r2 @ r3)" by simp
  have t: "take 24 bs = h" using lh by (simp add: bs)
  have "take 4 h = CSB_MAGIC" by (simp add: h_def CSB_MAGIC_def)
  then have m: "take 4 bs = CSB_MAGIC" using lh by (simp add: bs)
  have "take 2 (drop 4 h) = (if bo = Little then [255, 254] else [254, 255])"
    by (simp add: h_def CSB_MAGIC_def)
  then have o: "take 2 (drop 4 bs) = (if bo = Little then [255, 254] else [254, 255])"
    using lh by (simp add: bs)
  from w1 w2 w3 t lh m o show ?thesis by auto
qed

lemma read_csb_of_blocks:
  assumes "24 \<le> length d" and "take 4 d = CSB_MAGIC"
    and "take 2 (drop 4 d) = (if bo = Little then [255, 254] else [254, 255])"
    and "read_strp d bo 24 = Inr (rsm, p7)"
    and "read_lnp d bo rsm p7 = Inr (rlm, p8)"
    and "read_lnt d bo rlm p8 = Inr (rows, p9)"
  shows "read_csb d False = Inr rows"
proof -
  have r0: "f_read d 6 6 = (take 6 (drop 6 d), 12)"
    using assms(1) by (simp add: f_read_def Let_def)
  have r1: "read_int d bo 4 12 = Inr (from_bytes bo (take 4 (drop 12 d)), 16)"
    using assms(1) by (simp add: read_int_eq_Inr)
  have r2: "read_int d bo 4 16 = Inr (from_bytes bo (take 4 (drop 16 d)), 20)"
    using assms(1) by (simp add: read_int_eq_Inr)
  have r3: "read_int d bo 4 20 = Inr (from_bytes bo (take 4 (drop 20 d)), 24)"
    using assms(1) by (simp add: read_int_eq_Inr)
  have "read_csb_blocks d bo 6 False = Inr rows"
    using r0 r1 r2 r3 assms(4,5,6) by (simp add: read_csb_blocks_def)
  then show ?thesis
    using assms(2,3) by (cases bo) (simp_all add: read_csb_cases)
qed

text \<open>The blocks of an encoding under any three counts in the header.\<close>

lemma read_csb_written_any_counts:
  assumes "write_csb lines bo = Inr bs" and "storable lines" and "length counts = 12"
  shows "read_csb (take 12 bs @ counts @ drop 24 bs) False = Inr (map (map readback) lines)"
proof -
  let ?d = "take 12 bs @ counts @ drop 24 bs"
  from write_csb_parts[OF assms(1)] obtain f4 sm f5 lm where
    w1: "write_strp (take 24 bs) bo lines = Inr (f4, sm)"
    and w2: "write_lnp f4 bo lines sm = Inr (f5, lm)"
    and w3: "write_lnt f5 bo lines lm = Inr bs"
    and l: "length (take 24 bs) = 24"
    and m: "take 4 bs = CSB_MAGIC"
    and o: "take 2 (drop 4 bs) = (if bo = Little then [255, 254] else [254, 255])"
    by blast
  from l have lb: "24 \<le> length bs" by simp
  then have l12: "length (take 12 bs) = 12" by simp
  have dd: "drop (length (take 24 bs)) ?d = drop (length (take 24 bs)) bs"
    using l l12 assms(3) by simp
  have hb: "length (take 24 bs) \<le> 24" by simp
  from read_written_blocks[OF w1 w2 w3 assms(2) hb dd] obtain rsm rlm where
    r1: "read_strp ?d bo 24 = Inr (rsm, length f4)"
    and r2: "read_lnp ?d bo rsm (length f4) = Inr (rlm, length f5)"
    and r3: "read_lnt ?d bo rlm (length f5) = Inr (map (map readback) lines, length bs)"
    using l by auto
  have ld: "24 \<le> length ?d" using l12 assms(3) by simp
  have "take 4 ?d = take 4 bs" using l12 by simp
  then have md: "take 4 ?d = CSB_MAGIC" using m by simp
  have "take 2 (drop 4 ?d) = take 2 (drop 4 (take 12 bs))" using l12 by simp
  also have "\<dots> = take 2 (drop 4 bs)" using lb by (simp add: drop_take)
  finally have od: "take 2 (drop 4 ?d) = (if bo = Little then [255, 254] else [254, 255])"
    using o by simp
  show ?thesis using ld md od r1 r2 r3 by (rule read_csb_of_blocks)
qed

lemma written_counts:
  assumes "write_csb lines bo = Inr bs"
  shows "read_int bs bo 4 12 = Inr (sum_list (map length lines), 16)
       \<and> read_int bs bo 4 16 = Inr (Max (insert 0 (length ` set lines)), 20)
       \<and> read_int bs bo 4 20 = Inr (length lines, 24)"
proof -
  let ?tf = "sum_list (map length lines)"
  let ?mc = "Max (insert 0 (length ` set lines))"
  let ?pre = "CSB_MAGIC @ (if bo = Little then [255, 254] else [254, 255]) @ [0, 1, 255, 255, 0, 0]"
  from write_csb_header[OF assms] obtain rest where
    bs: "bs = CSB_MAGIC @ (if bo = Little then [255, 254] else [254, 255])
            @ [0, 1, 255, 255, 0, 0]
            @ to_bytes bo 4 ?tf @ to_bytes bo 4 ?mc @ to_bytes bo 4 (length lines) @ rest"
    and b: "?tf < 256 ^ 4" "?mc < 256 ^ 4" "length lines < 256 ^ 4"
    by blast
  have l: "length ?pre = 12" by (simp add: CSB_MAGIC_def)
  have "bs = ?pre @ to_bytes bo 4 ?tf @ (to_bytes bo 4 ?mc @ to_bytes bo 4 (length lines) @ rest)"
    using bs by simp
  then have s1: "segment_at bs 12 (to_bytes bo 4 ?tf)"
    using segment_at_offset[OF l] by simp
  have "bs = (?pre @ to_bytes bo 4 ?tf) @ to_bytes bo 4 ?mc @ (to_bytes bo 4 (length lines) @ rest)"
    using bs by simp
  moreover have "length (?pre @ to_bytes bo 4 ?tf) = 16" using l by simp
  ultimately have s2: "segment_at bs 16 (to_bytes bo 4 ?mc)"
    using segment_at_offset[of "?pre @ to_bytes bo 4 ?tf" 16] by simp
  have "bs = (?pre @ to_bytes bo 4 ?tf @ to_bytes bo 4 ?mc) @ to_bytes bo 4 (length lines) @ rest"
    using bs by simp
  moreover have "length (?pre @ to_bytes bo 4 ?tf @ to_bytes bo 4 ?mc) = 20" using l by simp
  ultimately have s3: "segment_at bs 20 (to_bytes bo 4 (length lines))"
    using segment_at_offset[of "?pre @ to_bytes bo 4 ?tf @ to_bytes bo 4 ?mc" 20] by simp
  from read_int_segment[OF s1 b(1)] read_int_segment[OF s2 b(2)] read_int_segment[OF s3 b(3)]
  show ?thesis by simp
qed

lemma read_csb_written:
  assumes "write_csb lines bo = Inr bs" and "storable lines"
  shows "read_csb bs v = Inr (map (map readback) lines)"
proof -
  from write_csb_parts[OF assms(1)] have l: "length (take 24 bs) = 24"
    and o: "take 2 (drop 4 bs) = (if bo = Little then [255, 254] else [254, 255])"
    by blast+
  then have "take 12 bs @ take 12 (drop 12 bs) @ drop 24 bs = bs"
    by (metis append_take_drop_id drop_drop numeral_Bit0 take_add add_numeral_left
          numeral_plus_numeral semiring_norm(2) semiring_norm(6) append.assoc)
  moreover have "length (take 12 (drop 12 bs)) = 12" using l by simp
  ultimately have f: "read_csb bs False = Inr (map (map readback) lines)"
    using read_csb_written_any_counts[OF assms, of "take 12 (drop 12 bs)"] by simp
  have bo: "(if take 2 (drop 4 bs) = [255, 254] then Little else Big) = bo"
    using o by (cases bo) simp_all
  from written_counts[OF assms(1)] have
    "from_bytes bo (take 4 (drop 12 bs)) = sum_list (map length lines)"
    "from_bytes bo (take 4 (drop 16 bs)) = Max (insert 0 (length ` set lines))"
    "from_bytes bo (take 4 (drop 20 bs)) = length lines"
    by (simp_all add: read_int_eq_Inr)
  then have "read_csb bs True = Inr (map (map readback) lines)"
    using read_csb_validate[OF f] by (simp add: bo Let_def image_image comp_def)
  with f show ?thesis by (cases v) simp_all
qed

section \<open>When the writer succeeds\<close>

lemma length_lnp_records: "length (lnp_records bo sm a lines) = records_size lines"
  by (induction lines arbitrary: a) (simp_all add: records_size_def)

lemma length_le_concat_c_strings:
  "length strs \<le> length (concat (map (write_c_string []) strs))"
  by (induction strs) (simp_all add: write_c_string_def)

lemma take_offset_less:
  "i < length strs \<Longrightarrow>
   length (concat (map (write_c_string []) (take i strs)))
     < length (concat (map (write_c_string []) strs))"
proof (induction strs arbitrary: i)
  case Nil
  then show ?case by simp
next
  case (Cons s strs)
  then show ?case by (cases i) (simp_all add: write_c_string_def)
qed

lemma records_size_bounds:
  "8 * sum_list (map length lines) + 16 * length lines = records_size lines"
  by (induction lines) (simp_all add: records_size_def)

lemma Max_le_sum_list: "Max (insert 0 (length ` set lines)) \<le> sum_list (map length lines)"
proof -
  have "\<forall>line\<in>set lines. length line \<le> sum_list (map length lines)"
    by (auto intro: member_le_sum_list)
  then show ?thesis by simp
qed

lemma write_strp_succeeds:
  assumes "pool_size lines + 16 < 256 ^ 4"
  shows "\<exists>f sm. write_strp f0 bo lines = Inr (f, sm)"
proof -
  let ?u = "get_unique_strs lines"
  have "length ?u \<le> pool_size lines"
    unfolding pool_size_def by (rule length_le_concat_c_strings)
  with assms have c: "length ?u < 256 ^ 8" by simp
  obtain blk m where l: "write_strp_loop (length (f0 @ STRP_MAGIC)) ?u (to_bytes bo 8 (length ?u)) Map.empty = (blk, m)"
    by (cases "write_strp_loop (length (f0 @ STRP_MAGIC)) ?u (to_bytes bo 8 (length ?u)) Map.empty")
  have "blk = to_bytes bo 8 (length ?u) @ concat (map (write_c_string []) ?u)"
    using write_strp_loop_block[of "length (f0 @ STRP_MAGIC)" ?u "to_bytes bo 8 (length ?u)" Map.empty] l
    by simp
  then have "length blk + 8 = pool_size lines + 16" by (simp add: pool_size_def)
  with assms have b: "length blk + 8 < 256 ^ 4" by simp
  show ?thesis
    using c b l by (simp add: write_strp_def Let_def pack_def)
qed

lemma write_strp_map:
  assumes "write_strp f0 bo lines = Inr (f, sm)" and "val \<in> set (concat lines)"
  shows "\<exists>a. sm val = Some a \<and> a < length f0 + 16 + pool_size lines"
proof -
  let ?u = "get_unique_strs lines"
  have su: "set ?u = set (concat lines)" using get_unique_strs_first_occurrence by blast
  from assms(2) have "val \<in> set ?u" by (simp only: su)
  then obtain i where i: "i < length ?u" "?u ! i = val"
    by (auto simp: in_set_conv_nth)
  from write_strp_eq(4)[OF assms(1)] i have
    "sm val = Some (length f0 + 16 + length (concat (map (write_c_string []) (take i ?u))))"
    by auto
  moreover have "length (concat (map (write_c_string []) (take i ?u))) < pool_size lines"
    unfolding pool_size_def using i(1) by (rule take_offset_less)
  ultimately show ?thesis by simp
qed

lemma write_lnp_vals_succeeds:
  "\<forall>val\<in>set vals. \<exists>a. sm val = Some a \<and> a < 256 ^ 8 \<Longrightarrow>
   \<exists>blk'. write_lnp_vals bo sm vals blk = Inr blk'"
proof (induction vals arbitrary: blk)
  case Nil
  then show ?case by simp
next
  case (Cons val vals)
  then obtain a where a: "sm val = Some a" "a < 256 ^ 8" by auto
  from Cons have "\<exists>blk'. write_lnp_vals bo sm vals (blk @ to_bytes bo 8 a) = Inr blk'" by simp
  with a show ?case by (simp add: pack_def)
qed

lemma write_lnp_loop_succeeds:
  assumes "\<forall>line\<in>set lines. \<forall>val\<in>set line. \<exists>a. sm val = Some a \<and> a < 256 ^ 8"
    and "ft + length blk + 4 + records_size lines < 256 ^ 8"
  shows "\<exists>blk' lm'. write_lnp_loop ft bo sm lines blk lm = Inr (blk', lm')"
  using assms
proof (induction lines arbitrary: blk lm)
  case Nil
  then show ?case by simp
next
  case (Cons line lines)
  let ?start = "ft + length blk + 4"
  from Cons.prems(2) have r: "?start + 16 + 8 * length line + records_size lines < 256 ^ 8"
    by (simp add: records_size_def)
  then have b1: "length line < 256 ^ 8" and b2: "?start + 16 < 256 ^ 8" by simp_all
  from Cons.prems(1) have "\<forall>val\<in>set line. \<exists>a. sm val = Some a \<and> a < 256 ^ 8" by simp
  from write_lnp_vals_succeeds[OF this] obtain blk1 where
    v: "write_lnp_vals bo sm line (blk @ to_bytes bo 8 (length line) @ to_bytes bo 8 (?start + 16))
          = Inr blk1"
    by blast
  from write_lnp_vals_eq[OF v] have "length blk1 = length blk + 16 + 8 * length line" by simp
  with r have r': "ft + length blk1 + 4 + records_size lines < 256 ^ 8" by simp
  from Cons.prems(1) have "\<forall>line\<in>set lines. \<forall>val\<in>set line. \<exists>a. sm val = Some a \<and> a < 256 ^ 8"
    by simp
  from Cons.IH[OF this r', where lm = "lm @ [?start]"] obtain blk' lm' where
    "write_lnp_loop ft bo sm lines blk1 (lm @ [?start]) = Inr (blk', lm')" by blast
  with b1 b2 v show ?case by (simp add: Let_def pack_def)
qed

lemma write_lnp_succeeds:
  assumes "\<forall>line\<in>set lines. \<forall>val\<in>set line. \<exists>a. sm val = Some a \<and> a < 256 ^ 8"
    and "records_size lines + 16 < 256 ^ 4" and "length f0 < 256 ^ 5"
  shows "\<exists>f lm. write_lnp f0 bo lines sm = Inr (f, lm)"
proof -
  have p: "(256::nat) ^ 4 = 4294967296" "(256::nat) ^ 5 = 1099511627776"
    "(256::nat) ^ 8 = 18446744073709551616" by simp_all
  have n: "length lines \<le> records_size lines"
    using records_size_bounds[of lines] by simp
  with assms(2) have c: "length lines < 256 ^ 8" by (simp add: p)
  have "length (f0 @ LNP_MAGIC) + length (to_bytes bo 8 (length lines)) + 4 + records_size lines
          < 256 ^ 8"
    using assms(2,3) by (simp add: LNP_MAGIC_def p)
  from write_lnp_loop_succeeds[OF assms(1) this, where lm = "[]"] obtain blk lm where
    l: "write_lnp_loop (length (f0 @ LNP_MAGIC)) bo sm lines (to_bytes bo 8 (length lines)) []
          = Inr (blk, lm)" by blast
  from write_lnp_loop_eq[OF l] have "length blk = 8 + records_size lines"
    by (simp add: length_lnp_records)
  with assms(2) have b: "length blk + 8 < 256 ^ 4" by simp
  show ?thesis using c l b by (simp add: write_lnp_def Let_def pack_def)
qed

lemma write_lnt_loop_succeeds:
  "\<forall>a\<in>set lm. a < 256 ^ 8 \<Longrightarrow> \<exists>blk'. write_lnt_loop bo lm blk = Inr blk'"
proof (induction lm arbitrary: blk)
  case Nil
  then show ?case by simp
next
  case (Cons a lm)
  then have "\<exists>blk'. write_lnt_loop bo lm (blk @ to_bytes bo 8 a) = Inr blk'" by simp
  with Cons.prems show ?case by (simp add: pack_def)
qed

lemma write_lnt_succeeds:
  assumes "\<forall>a\<in>set lm. a < 256 ^ 8" and "8 * length lm + 16 < 256 ^ 4" and "length lines < 256 ^ 8"
  shows "\<exists>f. write_lnt f0 bo lines lm = Inr f"
proof -
  from write_lnt_loop_succeeds[OF assms(1)] obtain blk where
    l: "write_lnt_loop bo lm (to_bytes bo 8 (length lines)) = Inr blk" by blast
  from write_lnt_loop_eq[OF l] have "length blk = 8 + 8 * length lm"
    using length_concat_to_bytes[of bo 8 "\<lambda>x. x" lm] by simp
  with assms(2) have "length blk + 8 < 256 ^ 4" by simp
  with assms(3) l show ?thesis by (simp add: write_lnt_def Let_def pack_def)
qed

lemma write_csb_succeeds:
  assumes "fits_format lines"
  shows "\<exists>bs. write_csb lines bo = Inr bs"
proof -
  have p: "(256::nat) ^ 4 = 4294967296" "(256::nat) ^ 8 = 18446744073709551616" by simp_all
  from assms have fp: "pool_size lines + 16 < 256 ^ 4" and fr: "records_size lines + 16 < 256 ^ 4"
    by (simp_all add: fits_format_def)
  let ?tf = "sum_list (map length lines)"
  let ?mc = "Max (insert 0 (length ` set lines))"
  have hc: "header_counts lines (0, 0) = (?tf, ?mc)" by (simp add: header_counts_eq)
  have tf: "?tf < 256 ^ 4" using records_size_bounds[of lines] fr by simp
  have mc: "?mc < 256 ^ 4" using Max_le_sum_list[of lines] tf by (rule le_less_trans)
  have n: "length lines < 256 ^ 4" using records_size_bounds[of lines] fr by simp
  let ?h = "((CSB_MAGIC @ (if bo = Little then [255, 254] else [254, 255]))
      @ [0, 1, 255, 255, 0, 0]) @ to_bytes bo 4 ?tf @ to_bytes bo 4 ?mc @ to_bytes bo 4 (length lines)"
  have lh: "length ?h = 24" by (simp add: CSB_MAGIC_def)
  from write_strp_succeeds[OF fp] obtain f4 sm where
    w1: "write_strp ?h bo lines = Inr (f4, sm)" by blast
  have l4: "length f4 = 40 + pool_size lines"
    using write_strp_eq(1)[OF w1] lh by (simp add: pool_size_def STRP_MAGIC_def)
  have dom: "\<forall>line\<in>set lines. \<forall>val\<in>set line. \<exists>a. sm val = Some a \<and> a < 256 ^ 8"
  proof (intro ballI)
    fix line val assume "line \<in> set lines" "val \<in> set line"
    then have "val \<in> set (concat lines)" by auto
    from write_strp_map[OF w1 this] obtain a where "sm val = Some a" "a < length ?h + 16 + pool_size lines"
      by blast
    with fp lh show "\<exists>a. sm val = Some a \<and> a < 256 ^ 8" by (simp add: p)
  qed
  have "length f4 < 256 ^ 5" using l4 fp by simp
  from write_lnp_succeeds[OF dom fr this] obtain f5 lm where
    w2: "write_lnp f4 bo lines sm = Inr (f5, lm)" by blast
  have lm: "lm = lnp_starts (length f4 + 16) lines" by (rule write_lnp_eq(2)[OF w2])
  have starts: "\<And>a. \<forall>x\<in>set (lnp_starts a lines). x < a + records_size lines + 1"
  proof -
    fix a show "\<forall>x\<in>set (lnp_starts a lines). x < a + records_size lines + 1"
      by (induction lines arbitrary: a) (fastforce simp: records_size_def)+
  qed
  have a: "\<forall>x\<in>set lm. x < 256 ^ 8"
  proof
    fix x assume "x \<in> set lm"
    with starts[of "length f4 + 16"] have "x < length f4 + 16 + records_size lines + 1"
      by (simp add: lm)
    with l4 fp fr show "x < 256 ^ 8" by (simp add: p)
  qed
  have "8 * length lm + 16 \<le> records_size lines + 16"
    using records_size_bounds[of lines] by (simp add: lm)
  with fr have b: "8 * length lm + 16 < 256 ^ 4" by simp
  have n8: "length lines < 256 ^ 8" using n by (simp add: p)
  from write_lnt_succeeds[OF a b n8] obtain bs where
    w3: "write_lnt f5 bo lines lm = Inr bs" by blast
  have "write_csb lines bo = Inr bs"
    using hc tf mc n w1 w2 w3 by (simp add: write_csb_def Let_def pack_def)
  then show ?thesis by blast
qed

lemma write_csb_fits:
  assumes "write_csb lines bo = Inr bs"
  shows "fits_format lines"
proof -
  from write_csb_parts[OF assms] obtain f4 sm f5 lm where
    w1: "write_strp (take 24 bs) bo lines = Inr (f4, sm)"
    and w2: "write_lnp f4 bo lines sm = Inr (f5, lm)"
    by blast
  from write_strp_eq(2)[OF w1] write_lnp_eq(3)[OF w2] show ?thesis
    by (simp add: fits_format_def pool_size_def length_lnp_records)
qed

section \<open>The header counts\<close>

lemma write_csb_succeeds_iff: "(\<exists>bs. write_csb lines bo = Inr bs) \<longleftrightarrow> fits_format lines"
  using write_csb_succeeds write_csb_fits by blast

lemmas table_eval =
  fits_format_def pool_size_def records_size_def storable_def is_str_def get_unique_strs_def
  write_c_string_def utf8_encode_def encode_cp_def

lemma example_fits: "fits_format example_table"
  by (simp add: table_eval example_table_def)


text \<open>
  C7.  Every table that fits the format (and no other) has an encoding, and in it the
  three counts of the header, read back as the reader reads them (4 bytes each at
  offsets 12, 16 and 20), are the sum of the row lengths, the greatest row length (0 for
  the empty table) and the number of rows.
\<close>

theorem header_counts_written:
  assumes "fits_format lines"
  shows "\<exists>bs. write_csb lines bo = Inr bs
       \<and> read_int bs bo 4 12 = Inr (sum_list (map length lines), 16)
       \<and> read_int bs bo 4 16 = Inr (Max (insert 0 (length ` set lines)), 20)
       \<and> read_int bs bo 4 20 = Inr (length lines, 24)"
proof -
  from write_csb_succeeds[OF assms] obtain bs where w: "write_csb lines bo = Inr bs"
    by blast
  from written_counts[OF w] w show ?thesis by blast
qed

theorem header_counts_written_witness:
  "fits_format example_table
   \<and> write_csb example_table Little = Inr example_stream
   \<and> read_int example_stream Little 4 12 = Inr (3, 16)
   \<and> read_int example_stream Little 4 16 = Inr (2, 20)
   \<and> read_int example_stream Little 4 20 = Inr (2, 24)"
  using header_counts_written[OF example_fits, of Little] example_written example_fits
  by (simp add: example_table_def)

section \<open>The round trip\<close>

lemma readback_id: "\<forall>c\<in>set s. \<not> is_surrogate c \<Longrightarrow> readback s = s"
  by (simp add: readback_def)

lemma length_readback_rows:
  "map length (map (map readback) lines) = map length lines"
  by simp

text \<open>
  C1 (as amended).  Every table whose fields have no NUL character and that fits the
  format has an encoding in each byte order, and decoding it with validation returns
  the table, row by row and field by field, each field without its lone surrogates
  (the code points that UTF-8 cannot encode and the writer leaves out): a field that has
  none comes back as it was.
\<close>

theorem round_trip_storable:
  assumes "storable lines" and "fits_format lines"
  shows "\<exists>bs. write_csb lines bo = Inr bs
       \<and> read_csb bs True = Inr (map (map readback) lines)
       \<and> ((\<forall>line\<in>set lines. \<forall>s\<in>set line. \<forall>c\<in>set s. \<not> is_surrogate c)
            \<longrightarrow> read_csb bs True = Inr lines)"
proof -
  from write_csb_succeeds[OF assms(2)] obtain bs where w: "write_csb lines bo = Inr bs"
    by blast
  have r: "read_csb bs True = Inr (map (map readback) lines)"
    using w assms(1) by (rule read_csb_written)
  have "map (map readback) lines = lines"
    if "\<forall>line\<in>set lines. \<forall>s\<in>set line. \<forall>c\<in>set s. \<not> is_surrogate c"
    using that by (simp add: map_idI readback_id)
  with w r show ?thesis by auto
qed

lemma ragged_written: "write_csb ragged_table Big = Inr ragged_stream"
  by (simp add: write_eval ragged_table_def ragged_stream_def)

theorem round_trip_storable_witness:
  "storable ragged_table \<and> fits_format ragged_table
   \<and> write_csb ragged_table Big = Inr ragged_stream
   \<and> read_csb ragged_stream True = Inr ragged_table"
proof -
  have s: "storable ragged_table" by (simp add: table_eval ragged_table_def)
  have f: "fits_format ragged_table" by (simp add: table_eval ragged_table_def)
  have n: "\<forall>line\<in>set ragged_table. \<forall>s\<in>set line. \<forall>c\<in>set s. \<not> is_surrogate c"
    by (simp add: ragged_table_def is_surrogate_def)
  from round_trip_storable[OF s f, of Big] ragged_written n s f show ?thesis by auto
qed

text \<open>
  The table \<open>[["a\0b"]]\<close>, whose only field has a NUL character between \<open>a\<close> and
  \<open>b\<close>: it is encoded, and its encoding decodes to \<open>[["a"]]\<close>.
\<close>

theorem nul_field_counterexample:
  "write_csb [[[97, 0, 98]]] Big =
     Inr [67, 83, 66, 32, 254, 255, 0, 1, 255, 255, 0, 0, 0, 0, 0, 1, 0, 0, 0, 1, 0, 0, 0, 1,
          83, 84, 82, 80, 0, 0, 0, 20, 0, 0, 0, 0, 0, 0, 0, 1, 97, 0, 98, 0,
          76, 78, 80, 32, 0, 0, 0, 40, 0, 0, 0, 0, 0, 0, 0, 1,
          0, 0, 0, 0, 0, 0, 0, 1, 0, 0, 0, 0, 0, 0, 0, 76, 0, 0, 0, 0, 0, 0, 0, 40,
          76, 78, 84, 32, 0, 0, 0, 24, 0, 0, 0, 0, 0, 0, 0, 1, 0, 0, 0, 0, 0, 0, 0, 60]
   \<and> read_csb
        [67, 83, 66, 32, 254, 255, 0, 1, 255, 255, 0, 0, 0, 0, 0, 1, 0, 0, 0, 1, 0, 0, 0, 1,
         83, 84, 82, 80, 0, 0, 0, 20, 0, 0, 0, 0, 0, 0, 0, 1, 97, 0, 98, 0,
         76, 78, 80, 32, 0, 0, 0, 40, 0, 0, 0, 0, 0, 0, 0, 1,
         0, 0, 0, 0, 0, 0, 0, 1, 0, 0, 0, 0, 0, 0, 0, 76, 0, 0, 0, 0, 0, 0, 0, 40,
         76, 78, 84, 32, 0, 0, 0, 24, 0, 0, 0, 0, 0, 0, 0, 1, 0, 0, 0, 0, 0, 0, 0, 60] True
       = Inr [[[97]]]
   \<and> [[[97]]] \<noteq> [[[97, 0, 98 :: nat]]]"
  by (simp add: write_eval read_eval)

section \<open>Header counts that disagree with the blocks\<close>






end
